theory Spec2Isabelle
  imports Complex_Main "HOL-Library.Char_ord" "HOL-Library.List_Lexorder"
begin

section \<open>The lock protocol of lib/lock-protocol.js\<close>

text \<open>
  The protocol is written in continuation-passing style: every call to the ZooKeeper
  client, to \<^verbatim>\<open>setTimeout\<close> and to \<^verbatim>\<open>setImmediate\<close> hands over a closure that
  runs later. The embedding gives each closure of the source a name (type \<open>cont\<close>) and a
  handler function that maps the session object \<open>ctx\<close> to the mutated \<open>ctx\<close> together
  with the list of effects the closure's body performs, in program order. The store, the
  timers and \<^verbatim>\<open>Math.random\<close> are the environment: their answers are the arguments of
  the handlers. Output on the two \<^verbatim>\<open>debug\<close> channels changes neither the session nor
  the control flow and is left out.

  Strings are lists of characters ordered by character code, and lists of them are
  ordered lexicographically, which is the order of \<^verbatim>\<open>Array.prototype.sort\<close> without a
  comparison function. Counts and the TTL are natural numbers. The retry base
  \<^verbatim>\<open>initialRetryWaitMs\<close>, the random number and the delays are JavaScript numbers, that is
  IEEE 754 double precision values, and lines 158 to 161 compute with them (an absent
  retry base reads as \<^verbatim>\<open>NaN\<close> there).
\<close>

subsection \<open>JavaScript values\<close>

text \<open>An absent property reads as \<^verbatim>\<open>undefined\<close>, modelled by \<open>None\<close>.\<close>

definition truthy_str :: "string option \<Rightarrow> bool" where
  "truthy_str v = (case v of None \<Rightarrow> False | Some s \<Rightarrow> s \<noteq> [])"

definition truthy_num :: "nat option \<Rightarrow> bool" where
  "truthy_num v = (case v of None \<Rightarrow> False | Some n \<Rightarrow> n \<noteq> 0)"

text \<open>\<^verbatim>\<open>v || 0\<close> for a count.\<close>

definition count_of :: "nat option \<Rightarrow> nat" where
  "count_of v = (case v of None \<Rightarrow> 0 | Some k \<Rightarrow> k)"

text \<open>\<^verbatim>\<open>n > v\<close>: a comparison with \<^verbatim>\<open>undefined\<close> is false.\<close>

definition gt_num :: "nat \<Rightarrow> nat option \<Rightarrow> bool" where
  "gt_num n v = (case v of None \<Rightarrow> False | Some m \<Rightarrow> m < n)"

text \<open>Conversion inside a template literal.\<close>

definition to_str :: "string option \<Rightarrow> string" where
  "to_str v = (case v of None \<Rightarrow> ''undefined'' | Some s \<Rightarrow> s)"

fun digits :: "nat \<Rightarrow> string" where
  "digits n =
     (if n < 10 then [char_of (48 + n)]
      else digits (n div 10) @ [char_of (48 + n mod 10)])"

declare digits.simps [simp del]

text \<open>\<^verbatim>\<open>s.split(c)\<close>: never empty, so \<^verbatim>\<open>pop()\<close> is the last piece.\<close>

fun split :: "char \<Rightarrow> string \<Rightarrow> string list" where
  "split c [] = [[]]"
| "split c (x # xs) =
     (if x = c then [] # split c xs
      else (case split c xs of
              [] \<Rightarrow> [[x]]
            | w # ws \<Rightarrow> (x # w) # ws))"

definition pop :: "string list \<Rightarrow> string option" where
  "pop xs = (case xs of [] \<Rightarrow> None | _ \<Rightarrow> Some (last xs))"

text \<open>\<^verbatim>\<open>xs[i]\<close> is \<^verbatim>\<open>undefined\<close> out of range; \<^verbatim>\<open>findIndex\<close> is -1 when nothing matches.\<close>

definition js_index :: "'a list \<Rightarrow> int \<Rightarrow> 'a option" where
  "js_index xs i = (if 0 \<le> i \<and> i < int (length xs) then Some (xs ! nat i) else None)"

fun findIndex :: "('a \<Rightarrow> bool) \<Rightarrow> 'a list \<Rightarrow> int" where
  "findIndex P [] = - 1"
| "findIndex P (x # xs) =
     (if P x then 0
      else (let i = findIndex P xs in if i < 0 then - 1 else i + 1))"

subsection \<open>JavaScript numbers\<close>

text \<open>
  A double is a rational on the binary64 grid, an infinity, or \<^verbatim>\<open>NaN\<close>. The two zeros are
  one value here: the protocol multiplies, takes minima and floors, and none of these
  tells them apart. An arithmetic operation gives the exact result rounded to the
  nearest grid value, ties to the even mantissa (\<open>dround\<close>): 53 bits of mantissa, least
  exponent \<open>-1022\<close> with gradual underflow, and overflow to infinity from \<open>2 ^ 1024\<close> on.
\<close>

datatype double = Fin rat | PosInf | NegInf | NaN

text \<open>Rounding to the nearest integer, ties to even.\<close>

definition round_half_even :: "rat \<Rightarrow> int" where
  "round_half_even x =
     (let f = \<lfloor>x\<rfloor>; d = x - of_int f
      in if d < 1 / 2 then f else if 1 / 2 < d then f + 1 else if even f then f else f + 1)"

text \<open>The number of binary digits of a positive integer.\<close>

function bitlen :: "int \<Rightarrow> int" where
  "bitlen n = (if n \<le> 0 then 0 else 1 + bitlen (n div 2))"
  by pat_completeness auto
termination
  by (relation "measure nat") auto

declare bitlen.simps [simp del]

text \<open>For \<open>a > 0\<close>, the exponent \<open>e\<close> with \<open>2 ^ e \<le> a < 2 ^ (e + 1)\<close>.\<close>

definition ilog2 :: "rat \<Rightarrow> int" where
  "ilog2 a =
     (let (p, q) = quotient_of a;
          e = bitlen p - bitlen q
      in if 2 powi e \<le> a then e else e - 1)"

text \<open>Rounding of a magnitude to the grid, before the overflow test.\<close>

definition round_mag :: "rat \<Rightarrow> rat" where
  "round_mag a =
     (if a = 0 then 0
      else (let e = max (ilog2 a) (- 1022);
                q = 2 powi (e - 52)
            in of_int (round_half_even (a / q)) * q))"

definition dround :: "rat \<Rightarrow> double" where
  "dround x =
     (let v = round_mag \<bar>x\<bar>
      in if 2 ^ 1024 \<le> v then (if 0 < x then PosInf else NegInf)
         else Fin (if x < 0 then - v else v))"

text \<open>The operations of lines 158 to 161: \<^verbatim>\<open>*\<close>, \<^verbatim>\<open>Math.min\<close>, \<^verbatim>\<open>Math.floor\<close>
  and \<^verbatim>\<open>Math.pow(2, n)\<close> for a count \<open>n\<close>.\<close>

definition dmul :: "double \<Rightarrow> double \<Rightarrow> double" where
  "dmul a b =
     (case (a, b) of
        (NaN, _) \<Rightarrow> NaN
      | (_, NaN) \<Rightarrow> NaN
      | (Fin x, Fin y) \<Rightarrow> dround (x * y)
      | (Fin x, PosInf) \<Rightarrow> (if x = 0 then NaN else if 0 < x then PosInf else NegInf)
      | (Fin x, NegInf) \<Rightarrow> (if x = 0 then NaN else if 0 < x then NegInf else PosInf)
      | (PosInf, Fin y) \<Rightarrow> (if y = 0 then NaN else if 0 < y then PosInf else NegInf)
      | (NegInf, Fin y) \<Rightarrow> (if y = 0 then NaN else if 0 < y then NegInf else PosInf)
      | (PosInf, PosInf) \<Rightarrow> PosInf
      | (NegInf, NegInf) \<Rightarrow> PosInf
      | (PosInf, NegInf) \<Rightarrow> NegInf
      | (NegInf, PosInf) \<Rightarrow> NegInf)"

definition dmin :: "double \<Rightarrow> double \<Rightarrow> double" where
  "dmin a b =
     (case (a, b) of
        (NaN, _) \<Rightarrow> NaN
      | (_, NaN) \<Rightarrow> NaN
      | (NegInf, _) \<Rightarrow> NegInf
      | (_, NegInf) \<Rightarrow> NegInf
      | (PosInf, y) \<Rightarrow> y
      | (x, PosInf) \<Rightarrow> x
      | (Fin x, Fin y) \<Rightarrow> Fin (min x y))"

definition dfloor :: "double \<Rightarrow> double" where
  "dfloor a = (case a of Fin x \<Rightarrow> Fin (of_int \<lfloor>x\<rfloor>) | _ \<Rightarrow> a)"

definition dpow2 :: "nat \<Rightarrow> double" where
  "dpow2 n = dround (2 ^ n)"

subsection \<open>The session object and what the code does to its environment\<close>

text \<open>
  Errors of the store client. The protocol only tests them for truthiness.
\<close>

datatype store_error = NO_NODE | NODE_EXISTS | CONNECTION_LOSS | SESSION_EXPIRED | OTHER nat

text \<open>
  The function stored in \<^verbatim>\<open>ctx.cb\<close>: one supplied by the caller, or the empty function
  that \<^verbatim>\<open>unlock\<close> installs when there is none.
\<close>

datatype cbfun = Caller nat | Noop

datatype arg = ANull | AUndefined | AStr string | ACtx

definition str_arg :: "string option \<Rightarrow> arg" where
  "str_arg v = (case v of None \<Rightarrow> AUndefined | Some s \<Rightarrow> AStr s)"

text \<open>The closures of the source, by the lines that define them.\<close>

datatype cont =
    K_create          \<comment> \<open>lines 50-61, callback of \<^verbatim>\<open>client.create\<close>\<close>
  | K_children        \<comment> \<open>lines 92-113, callback of \<^verbatim>\<open>client.getChildren\<close>\<close>
  | K_watch           \<comment> \<open>lines 125-127, \<^verbatim>\<open>watchFunc\<close>\<close>
  | K_exists          \<comment> \<open>lines 133-176, callback of \<^verbatim>\<open>client.exists\<close>\<close>
  | K_retry           \<comment> \<open>lines 167-170, the backoff timer\<close>
  | K_failRemove      \<comment> \<open>lines 33-35, callback of the clean-up \<^verbatim>\<open>client.remove\<close>\<close>
  | K_unlockRemove    \<comment> \<open>lines 71-79, callback of \<^verbatim>\<open>client.remove\<close> in \<^verbatim>\<open>unlock\<close>\<close>
  | K_ttl             \<comment> \<open>lines 14-18, the TTL timer\<close>
  | K_immediate cbfun \<comment> \<open>line 68, \<^verbatim>\<open>setImmediate(ctx.cb)\<close>\<close>

datatype effect =
    ClientCreate string            \<comment> \<open>ephemeral sequential, continues at \<open>K_create\<close>\<close>
  | ClientGetChildren string       \<comment> \<open>continues at \<open>K_children\<close>\<close>
  | ClientExists string bool       \<comment> \<open>the flag: a watch function was passed\<close>
  | ClientRemove string cont       \<comment> \<open>version -1\<close>
  | SetTimeout cont double
  | SetImmediate cbfun
  | Emit string string             \<comment> \<open>\<^verbatim>\<open>ctx.events.emit(name, value)\<close>\<close>
  | Invoke cbfun "arg list"        \<comment> \<open>a call of the function held in \<^verbatim>\<open>ctx.cb\<close>\<close>
  | TypeError                      \<comment> \<open>a call of \<^verbatim>\<open>undefined\<close>\<close>

record ctx =
  resourceName :: string
  resourceId :: string
  ttl :: "nat option"
  maxRetryCount :: "nat option"
  initialRetryWaitMs :: double
  cb :: "cbfun option"
  seqZnode :: "string option"
  acquiredResource :: "string option"
  lastChildId :: "string option"
  collisionCount :: "nat option"

text \<open>Calling whatever \<^verbatim>\<open>ctx.cb\<close> holds.\<close>

definition call :: "cbfun option \<Rightarrow> arg list \<Rightarrow> effect" where
  "call f args = (case f of None \<Rightarrow> TypeError | Some g \<Rightarrow> Invoke g args)"

subsection \<open>The functions of the source\<close>

definition unlock :: "ctx \<Rightarrow> ctx \<times> effect list" where
  "unlock c =
     (let f = (case cb c of None \<Rightarrow> Noop | Some g \<Rightarrow> g);
          c1 = c\<lparr>cb := Some f\<rparr>
      in if \<not> truthy_str (acquiredResource c1) then (c1, [SetImmediate f])
         else (c1, [ClientRemove (to_str (acquiredResource c1)) K_unlockRemove]))"

definition unlock_remove_cb :: "ctx \<Rightarrow> store_error option \<Rightarrow> ctx \<times> effect list" where
  "unlock_remove_cb c err =
     (case err of
        Some e \<Rightarrow>
          (c, [call (cb c) [AStr ''unable to unlock resource'', str_arg (acquiredResource c)]])
      | None \<Rightarrow>
          (let c1 = c\<lparr>acquiredResource := None\<rparr> in (c1, [call (cb c1) []])))"

definition lockAcquired :: "ctx \<Rightarrow> ctx \<times> effect list" where
  "lockAcquired c =
     (let c1 = c\<lparr>acquiredResource := Some (resourceName c @ ''/'' @ to_str (seqZnode c))\<rparr>;
          f = cb c1;
          c2 = c1\<lparr>cb := None\<rparr>
      in (c2, (case ttl c2 of
                 None \<Rightarrow> []
               | Some t \<Rightarrow> if t \<noteq> 0 then [SetTimeout K_ttl (Fin (of_nat t))] else [])
              @ [call f [ANull, ACtx]]))"

definition ttl_cb :: "ctx \<Rightarrow> ctx \<times> effect list" where
  "ttl_cb c =
     (let (c1, es) = unlock c in (c1, Emit ''ttlExpired'' (resourceId c) # es))"

definition lockFailed_remove_cb :: "ctx \<Rightarrow> ctx \<times> effect list" where
  "lockFailed_remove_cb c = (c, [call (cb c) [AStr ''unable to acquire lock'']])"

definition lockFailed :: "ctx \<Rightarrow> string \<Rightarrow> ctx \<times> effect list" where
  "lockFailed c err =
     (if truthy_str (seqZnode c)
      then (c, [ClientRemove (resourceName c @ ''/'' @ to_str (seqZnode c)) K_failRemove])
      else (c, [call (cb c) [AStr ''unable to acquire lock'']]))"

definition getChildren :: "ctx \<Rightarrow> ctx \<times> effect list" where
  "getChildren c = (c, [ClientGetChildren (resourceName c)])"

definition lock :: "ctx \<Rightarrow> ctx \<times> effect list" where
  "lock c = (c, [ClientCreate (resourceName c @ ''/'' @ resourceId c)])"

definition lock_create_cb :: "ctx \<Rightarrow> store_error option \<Rightarrow> string \<Rightarrow> ctx \<times> effect list" where
  "lock_create_cb c err path =
     (case err of
        Some e \<Rightarrow> lockFailed c ''unable to create ZNode''
      | None \<Rightarrow> getChildren (c\<lparr>seqZnode := pop (split CHR ''/'' path)\<rparr>))"

definition exists :: "ctx \<Rightarrow> ctx \<times> effect list" where
  "exists c =
     (c, [ClientExists (resourceName c @ ''/'' @ to_str (lastChildId c))
            (\<not> truthy_num (maxRetryCount c))])"

definition watchFunc :: "ctx \<Rightarrow> ctx \<times> effect list" where
  "watchFunc c = getChildren c"

definition getChildren_cb :: "ctx \<Rightarrow> store_error option \<Rightarrow> string list \<Rightarrow> ctx \<times> effect list" where
  "getChildren_cb c err children =
     (case err of
        Some e \<Rightarrow> lockFailed c ''Failed to list ZNode children''
      | None \<Rightarrow>
          (let sorted = sort children
           in if seqZnode c = js_index sorted 0 then lockAcquired c
              else (let index = findIndex (\<lambda>e. Some e = seqZnode c) sorted
                    in exists (c\<lparr>lastChildId := js_index sorted (index - 1)\<rparr>))))"

text \<open>Lines 158 to 161, with \<open>r\<close> the value of \<^verbatim>\<open>Math.random()\<close>.\<close>

definition nextDelay :: "nat \<Rightarrow> double \<Rightarrow> double \<Rightarrow> double" where
  "nextDelay count wait r =
     (let maxDelay = dmul (dpow2 count) wait;
          maxDelay = dmin maxDelay (dmul wait (Fin 10))
      in dfloor (dmul r maxDelay))"

definition retry_cb :: "ctx \<Rightarrow> ctx \<times> effect list" where
  "retry_cb c = getChildren (c\<lparr>collisionCount := map_option Suc (collisionCount c)\<rparr>)"

definition exists_cb :: "ctx \<Rightarrow> store_error option \<Rightarrow> bool \<Rightarrow> double \<Rightarrow> ctx \<times> effect list" where
  "exists_cb c err stat r =
     (case err of
        Some e \<Rightarrow>
          lockFailed c
            (''unable to check the existence of '' @ resourceName c @ ''/'' @ to_str (lastChildId c))
      | None \<Rightarrow>
          if stat then
            if truthy_num (maxRetryCount c) then
              (let n = count_of (collisionCount c);
                   c1 = c\<lparr>collisionCount := Some n\<rparr>
               in if gt_num n (maxRetryCount c1)
                  then lockFailed c1 (''Lock failed, retry count limit reached - '' @ digits n)
                  else (c1, [SetTimeout K_retry (nextDelay n (initialRetryWaitMs c1) r)]))
            else (c, [])
          else getChildren c)"

text \<open>
  In \<open>retry_cb\<close>, \<^verbatim>\<open>++ctx.collisionCount\<close> on an absent count gives \<^verbatim>\<open>NaN\<close>, which line 150
  replaces by 0 exactly as it replaces \<^verbatim>\<open>undefined\<close>; \<open>None\<close> stands for both.
\<close>

subsection \<open>The event loop\<close>

text \<open>
  An event is either a call of one of the two exported functions or the environment
  resuming a closure registered earlier, with the arguments it passes. A closure can be
  resumed only while it is pending, and is removed from the pending closures when it
  runs. Nothing in the source cancels a timer or a watch.
\<close>

datatype event =
    CallLock
  | CallUnlock
  | CreateCb "store_error option" string
  | GetChildrenCb "store_error option" "string list"
  | WatchCb
  | ExistsCb "store_error option" bool double
  | RetryTimer
  | FailRemoveCb "store_error option"
  | UnlockRemoveCb "store_error option"
  | TtlTimer
  | Immediate cbfun

record world =
  session :: ctx
  pending :: "cont list"
  trace :: "effect list"

fun registers :: "effect \<Rightarrow> cont list" where
  "registers (ClientCreate p) = [K_create]"
| "registers (ClientGetChildren p) = [K_children]"
| "registers (ClientExists p w) = (if w then [K_exists, K_watch] else [K_exists])"
| "registers (ClientRemove p k) = [k]"
| "registers (SetTimeout k d) = [k]"
| "registers (SetImmediate f) = [K_immediate f]"
| "registers (Emit n v) = []"
| "registers (Invoke f as) = []"
| "registers TypeError = []"

fun resumes :: "event \<Rightarrow> cont option" where
  "resumes CallLock = None"
| "resumes CallUnlock = None"
| "resumes (CreateCb err path) = Some K_create"
| "resumes (GetChildrenCb err children) = Some K_children"
| "resumes WatchCb = Some K_watch"
| "resumes (ExistsCb err stat r) = Some K_exists"
| "resumes RetryTimer = Some K_retry"
| "resumes (FailRemoveCb err) = Some K_failRemove"
| "resumes (UnlockRemoveCb err) = Some K_unlockRemove"
| "resumes TtlTimer = Some K_ttl"
| "resumes (Immediate f) = Some (K_immediate f)"

fun handler :: "event \<Rightarrow> ctx \<Rightarrow> ctx \<times> effect list" where
  "handler CallLock c = lock c"
| "handler CallUnlock c = unlock c"
| "handler (CreateCb err path) c = lock_create_cb c err path"
| "handler (GetChildrenCb err children) c = getChildren_cb c err children"
| "handler WatchCb c = watchFunc c"
| "handler (ExistsCb err stat r) c = exists_cb c err stat r"
| "handler RetryTimer c = retry_cb c"
| "handler (FailRemoveCb err) c = lockFailed_remove_cb c"
| "handler (UnlockRemoveCb err) c = unlock_remove_cb c err"
| "handler TtlTimer c = ttl_cb c"
| "handler (Immediate f) c = (c, [Invoke f []])"

definition enabled :: "event \<Rightarrow> world \<Rightarrow> bool" where
  "enabled ev w = (case resumes ev of None \<Rightarrow> True | Some k \<Rightarrow> k \<in> set (pending w))"

definition step :: "event \<Rightarrow> world \<Rightarrow> world option" where
  "step ev w =
     (if enabled ev w
      then (let (c, es) = handler ev (session w);
                ps = (case resumes ev of None \<Rightarrow> pending w | Some k \<Rightarrow> remove1 k (pending w))
            in Some \<lparr>session = c, pending = ps @ concat (map registers es), trace = trace w @ es\<rparr>)
      else None)"

fun run :: "event list \<Rightarrow> world \<Rightarrow> world option" where
  "run [] w = Some w"
| "run (ev # evs) w = (case step ev w of None \<Rightarrow> None | Some w1 \<Rightarrow> run evs w1)"

subsection \<open>Polling against a predecessor that stays\<close>

text \<open>
  One round of polling mode as the environment sees it: the existence check answers that
  the watched node is still there, the backoff timer fires, and the listing answers.
\<close>

definition poll_round :: "string list \<Rightarrow> double \<Rightarrow> event list" where
  "poll_round children r = [ExistsCb None True r, RetryTimer, GetChildrenCb None children]"

definition poll_rounds :: "nat \<Rightarrow> string list \<Rightarrow> double \<Rightarrow> event list" where
  "poll_rounds k children r = concat (replicate k (poll_round children r))"

text \<open>What round \<open>i\<close> adds to the trace when the session waits on child \<open>p\<close>.\<close>

definition round_effects :: "ctx \<Rightarrow> string \<Rightarrow> double \<Rightarrow> nat \<Rightarrow> effect list" where
  "round_effects c p r i =
     [SetTimeout K_retry (nextDelay i (initialRetryWaitMs c) r),
      ClientGetChildren (resourceName c),
      ClientExists (resourceName c @ ''/'' @ p) False]"

fun is_retry :: "effect \<Rightarrow> bool" where
  "is_retry (SetTimeout k d) = (k = K_retry)"
| "is_retry (ClientCreate p) = False"
| "is_retry (ClientGetChildren p) = False"
| "is_retry (ClientExists p w) = False"
| "is_retry (ClientRemove p k) = False"
| "is_retry (SetImmediate f) = False"
| "is_retry (Emit n v) = False"
| "is_retry (Invoke f as) = False"
| "is_retry TypeError = False"

definition retries :: "effect list \<Rightarrow> nat" where
  "retries es = length (filter is_retry es)"

subsection \<open>Sessions used as concrete inputs\<close>

definition ex_new :: ctx where
  "ex_new =
     \<lparr>resourceName = ''/locks/a'', resourceId = ''x'', ttl = Some 1000, maxRetryCount = None,
      initialRetryWaitMs = Fin 100, cb = Some (Caller 0), seqZnode = None,
      acquiredResource = None, lastChildId = None, collisionCount = None\<rparr>"

text \<open>The node of the session was created second.\<close>

definition ex_created :: ctx where
  "ex_created = ex_new\<lparr>seqZnode := Some ''x0000000002''\<rparr>"

text \<open>The session holds the lock; its TTL timer is running.\<close>

definition ex_held :: ctx where
  "ex_held =
     ex_new\<lparr>seqZnode := Some ''x0000000001'', cb := None,
            acquiredResource := Some ''/locks/a/x0000000001''\<rparr>"

definition ex_listing :: world where
  "ex_listing = \<lparr>session = ex_created, pending = [K_children], trace = []\<rparr>"

definition ex_holding :: world where
  "ex_holding = \<lparr>session = ex_held, pending = [K_ttl], trace = []\<rparr>"

definition ex_start :: world where
  "ex_start = \<lparr>session = ex_new, pending = [], trace = []\<rparr>"

text \<open>A polling session with one retry configured, waiting on its predecessor.\<close>

definition ex_waiting :: world where
  "ex_waiting =
     \<lparr>session = ex_created\<lparr>maxRetryCount := Some 1, lastChildId := Some ''x0000000001''\<rparr>,
      pending = [K_exists], trace = []\<rparr>"

section \<open>Auxiliary facts\<close>

lemmas handler_defs =
  lock_def lock_create_cb_def unlock_def unlock_remove_cb_def getChildren_def getChildren_cb_def
  watchFunc_def exists_def exists_cb_def retry_cb_def lockAcquired_def lockFailed_def
  lockFailed_remove_cb_def ttl_cb_def

lemmas js_defs =
  truthy_str_def truthy_num_def gt_num_def to_str_def str_arg_def call_def count_of_def
  js_index_def pop_def

lemmas ex_defs =
  ex_new_def ex_created_def ex_held_def ex_listing_def ex_holding_def ex_waiting_def ex_start_def

subsection \<open>The example worlds arise from a call of lock\<close>

lemma ex_listing_reached:
  "run [CallLock, CreateCb None ''/locks/a/x0000000002''] ex_start =
     Some (ex_listing\<lparr>trace := [ClientCreate ''/locks/a/x'', ClientGetChildren ''/locks/a'']\<rparr>)"
  by (simp add: step_def enabled_def handler_defs js_defs ex_defs)

lemma ex_holding_reached:
  "run [CallLock, CreateCb None ''/locks/a/x0000000001'', GetChildrenCb None [''x0000000001'']] ex_start =
     Some (ex_holding\<lparr>trace := [ClientCreate ''/locks/a/x'', ClientGetChildren ''/locks/a'',
                                 SetTimeout K_ttl (Fin 1000), Invoke (Caller 0) [ANull, ACtx]]\<rparr>)"
  by (simp add: step_def enabled_def handler_defs js_defs ex_defs Let_def)

lemma ex_waiting_reached:
  "run [CallLock, CreateCb None ''/locks/a/x0000000002'',
        GetChildrenCb None [''x0000000002'', ''x0000000001'']]
       (ex_start\<lparr>session := ex_new\<lparr>maxRetryCount := Some 1\<rparr>\<rparr>) =
     Some (ex_waiting\<lparr>trace := [ClientCreate ''/locks/a/x'', ClientGetChildren ''/locks/a'',
                                 ClientExists ''/locks/a/x0000000001'' False]\<rparr>)"
  by (simp add: step_def enabled_def handler_defs js_defs ex_defs Let_def)

subsection \<open>Array search and the sorted child list\<close>

lemma findIndex_found:
  "\<exists>x\<in>set xs. P x \<Longrightarrow>
     0 \<le> findIndex P xs \<and> nat (findIndex P xs) < length xs \<and> P (xs ! nat (findIndex P xs))
     \<and> (\<forall>j < nat (findIndex P xs). \<not> P (xs ! j))"
proof (induction xs)
  case Nil
  then show ?case by simp
next
  case (Cons x xs)
  show ?case
  proof (cases "P x")
    case True
    then show ?thesis by simp
  next
    case False
    with Cons.prems have ex: "\<exists>x\<in>set xs. P x" by auto
    note ih = Cons.IH [OF ex]
    from ih have nonneg: "0 \<le> findIndex P xs" by blast
    then have eq: "findIndex P (x # xs) = findIndex P xs + 1"
      using False by (simp add: Let_def)
    have n: "nat (findIndex P xs + 1) = Suc (nat (findIndex P xs))"
      using nonneg by (simp add: nat_add_distrib)
    show ?thesis
      unfolding eq n using ih False nonneg
      by (auto simp: nth_Cons split: nat.splits)
  qed
qed

lemma findIndex_none: "(\<forall>x\<in>set xs. \<not> P x) \<Longrightarrow> findIndex P xs = - 1"
  by (induction xs) (auto simp: Let_def)

lemma js_index_sort_0:
  "xs \<noteq> [] \<Longrightarrow> js_index (sort xs) 0 = Some (Min (set xs))"
proof -
  assume ne: "xs \<noteq> []"
  then have "sort xs \<noteq> []" by (metis length_0_conv length_sort)
  then obtain y ys where s: "sort xs = y # ys" by (cases "sort xs") auto
  have srt: "sorted (y # ys)" using sorted_sort_key [of "\<lambda>x. x" xs] s by simp
  have st: "set (y # ys) = set xs" using s by (metis set_sort)
  have "Min (set xs) = y"
  proof (rule Min_eqI)
    show "finite (set xs)" by simp
    show "\<And>z. z \<in> set xs \<Longrightarrow> y \<le> z" using srt st by auto
    show "y \<in> set xs" using st by auto
  qed
  then show ?thesis by (simp add: js_index_def s)
qed

text \<open>In a sorted list, the element before the first occurrence of \<open>s\<close> is the greatest
  element below \<open>s\<close>.\<close>

lemma sorted_predecessor:
  fixes xs :: "'a::linorder list"
  assumes "sorted xs" "i < length xs" "xs ! i = s" "\<forall>j<i. xs ! j \<noteq> s" "0 < i"
  shows "xs ! (i - 1) < s \<and> (\<forall>q\<in>set xs. q < s \<longrightarrow> q \<le> xs ! (i - 1))"
proof
  have "xs ! (i - 1) \<le> xs ! i"
    using assms by (intro sorted_nth_mono) auto
  moreover have "xs ! (i - 1) \<noteq> s" using assms by simp
  ultimately show "xs ! (i - 1) < s" using assms(3) by simp
next
  show "\<forall>q\<in>set xs. q < s \<longrightarrow> q \<le> xs ! (i - 1)"
  proof (intro ballI impI)
    fix q assume q: "q \<in> set xs" "q < s"
    then obtain j where j: "j < length xs" "xs ! j = q" by (auto simp: in_set_conv_nth)
    have "j < i"
    proof (rule ccontr)
      assume "\<not> j < i"
      then have "xs ! i \<le> xs ! j" using assms(1) j(1) by (intro sorted_nth_mono) auto
      then show False using q(2) j(2) assms(3) by simp
    qed
    then have "xs ! j \<le> xs ! (i - 1)" using assms(1,2) by (intro sorted_nth_mono) auto
    then show "q \<le> xs ! (i - 1)" using j(2) by simp
  qed
qed

subsection \<open>The rank check\<close>

lemma getChildren_cb_outcome:
  assumes sq: "seqZnode c = Some s" and cbf: "cb c = Some f"
    and res: "getChildren_cb c None children = (c', es)"
  shows "((Invoke f [ANull, ACtx] \<in> set es \<and> acquiredResource c' = Some (resourceName c @ ''/'' @ s))
            = (children \<noteq> [] \<and> s = Min (set children)))
       \<and> (s \<in> set children \<and> s \<noteq> Min (set children) \<longrightarrow>
            (\<exists>p. p \<in> set children \<and> p < s \<and> (\<forall>q\<in>set children. q < s \<longrightarrow> q \<le> p)
                 \<and> c' = c\<lparr>lastChildId := Some p\<rparr>
                 \<and> es = [ClientExists (resourceName c @ ''/'' @ p) (\<not> truthy_num (maxRetryCount c))]))"
proof (intro conjI impI)
  show "(Invoke f [ANull, ACtx] \<in> set es \<and> acquiredResource c' = Some (resourceName c @ ''/'' @ s))
            = (children \<noteq> [] \<and> s = Min (set children))"
  proof (cases "children = []")
    case True
    then show ?thesis using res sq
      by (auto simp: getChildren_cb_def js_index_def exists_def)
  next
    case False
    then show ?thesis using res sq cbf
      by (auto simp: getChildren_cb_def js_index_sort_0 exists_def lockAcquired_def call_def
          to_str_def Let_def split: option.splits if_splits)
  qed
next
  assume a: "s \<in> set children \<and> s \<noteq> Min (set children)"
  let ?xs = "sort children"
  let ?P = "\<lambda>e. Some e = seqZnode c"
  let ?i = "findIndex ?P ?xs"
  have ne: "children \<noteq> []" using a by auto
  have "\<exists>x\<in>set ?xs. ?P x" using a sq by auto
  note fi = findIndex_found [OF this]
  have i0: "?i \<noteq> 0"
  proof
    assume "?i = 0"
    then have "?P (?xs ! 0)" using fi by simp
    moreover have "?xs ! 0 = Min (set children)"
      using js_index_sort_0 [OF ne] by (simp add: js_index_def split: if_splits)
    ultimately show False using a sq by simp
  qed
  then have ipos: "0 < nat ?i" using fi by simp
  have nat1: "nat (?i - 1) = nat ?i - 1" using fi by simp
  have inr: "0 \<le> ?i - 1 \<and> ?i - 1 < int (length ?xs)" using fi i0 by (auto simp: nat_less_iff)
  have pr: "?xs ! (nat ?i - 1) < s \<and> (\<forall>q\<in>set ?xs. q < s \<longrightarrow> q \<le> ?xs ! (nat ?i - 1))"
  proof (rule sorted_predecessor)
    show "sorted ?xs" by simp
    show "nat ?i < length ?xs" using fi by simp
    show "?xs ! nat ?i = s" using fi sq by simp
    show "\<forall>j<nat ?i. ?xs ! j \<noteq> s" using fi sq by auto
    show "0 < nat ?i" by (rule ipos)
  qed
  have mem: "?xs ! (nat ?i - 1) \<in> set children"
  proof -
    have "nat ?i - 1 < length ?xs" using fi by auto
    then have "?xs ! (nat ?i - 1) \<in> set ?xs" by (rule nth_mem)
    then show ?thesis by simp
  qed
  have ji: "js_index ?xs (?i - 1) = Some (?xs ! (nat ?i - 1))"
    using inr nat1 by (simp add: js_index_def)
  have "getChildren_cb c None children = exists (c\<lparr>lastChildId := js_index ?xs (?i - 1)\<rparr>)"
    using a sq ne by (simp add: getChildren_cb_def js_index_sort_0 Let_def)
  then have "c' = c\<lparr>lastChildId := Some (?xs ! (nat ?i - 1))\<rparr>
      \<and> es = [ClientExists (resourceName c @ ''/'' @ ?xs ! (nat ?i - 1)) (\<not> truthy_num (maxRetryCount c))]"
    using res ji by (simp add: exists_def to_str_def)
  then show "\<exists>p. p \<in> set children \<and> p < s \<and> (\<forall>q\<in>set children. q < s \<longrightarrow> q \<le> p)
                 \<and> c' = c\<lparr>lastChildId := Some p\<rparr>
                 \<and> es = [ClientExists (resourceName c @ ''/'' @ p) (\<not> truthy_num (maxRetryCount c))]"
    using pr mem by (intro exI [of _ "?xs ! (nat ?i - 1)"]) simp
qed

lemma predecessor_unique:
  fixes p :: "'a::linorder"
  assumes "p \<in> A" "p < s" "\<forall>q\<in>A. q < s \<longrightarrow> q \<le> p"
    and "p' \<in> A" "p' < s" "\<forall>q\<in>A. q < s \<longrightarrow> q \<le> p'"
  shows "p' = p"
  using assms by (meson order.antisym)

lemma getChildren_cb_waits_on:
  assumes sq: "seqZnode c = Some s" and mem: "s \<in> set children" and nm: "s \<noteq> Min (set children)"
    and p: "p \<in> set children" "p < s" "\<forall>q\<in>set children. q < s \<longrightarrow> q \<le> p"
  shows "getChildren_cb c None children =
           (c\<lparr>lastChildId := Some p\<rparr>,
            [ClientExists (resourceName c @ ''/'' @ p) (\<not> truthy_num (maxRetryCount c))])"
proof -
  let ?c = "c\<lparr>cb := Some Noop\<rparr>"
  obtain c' es where r: "getChildren_cb ?c None children = (c', es)"
    by (cases "getChildren_cb ?c None children")
  have sq': "seqZnode ?c = Some s" and cb': "cb ?c = Some Noop" using sq by simp_all
  obtain p' where p': "p' \<in> set children" "p' < s" "\<forall>q\<in>set children. q < s \<longrightarrow> q \<le> p'"
    and e: "c' = ?c\<lparr>lastChildId := Some p'\<rparr>"
      "es = [ClientExists (resourceName ?c @ ''/'' @ p') (\<not> truthy_num (maxRetryCount ?c))]"
    using getChildren_cb_outcome [OF sq' cb' r] mem nm by blast
  have pp: "p' = p" using p p' by (rule predecessor_unique)
  have "children \<noteq> []" using mem by auto
  then have w: "getChildren_cb c None children =
      exists (c\<lparr>lastChildId :=
         js_index (sort children) (findIndex (\<lambda>e. Some e = Some s) (sort children) - 1)\<rparr>)"
    and w': "getChildren_cb ?c None children =
      exists (?c\<lparr>lastChildId :=
         js_index (sort children) (findIndex (\<lambda>e. Some e = Some s) (sort children) - 1)\<rparr>)"
    using sq nm by (simp_all add: getChildren_cb_def js_index_sort_0 Let_def)
  let ?j = "js_index (sort children) (findIndex (\<lambda>e. Some e = Some s) (sort children) - 1)"
  have "lastChildId c' = ?j" using r unfolding w' by (auto simp: exists_def)
  moreover have "lastChildId c' = Some p'" using e(1) by simp
  ultimately have "?j = Some p" using pp by simp
  then show ?thesis unfolding w by (simp add: exists_def to_str_def)
qed

lemma predecessor_exists:
  assumes "s \<in> set children" and "s \<noteq> Min (set children)"
  shows "\<exists>p::string. p \<in> set children \<and> p < s \<and> (\<forall>q\<in>set children. q < s \<longrightarrow> q \<le> p)"
proof -
  let ?c = "ex_new\<lparr>seqZnode := Some s\<rparr>"
  obtain c' es where r: "getChildren_cb ?c None children = (c', es)"
    by (cases "getChildren_cb ?c None children")
  have "seqZnode ?c = Some s" and "cb ?c = Some (Caller 0)" by (simp_all add: ex_new_def)
  from getChildren_cb_outcome [OF this r] assms show ?thesis by blast
qed

subsection \<open>Rounding to double precision\<close>

lemma rhe_cases: "round_half_even x = \<lfloor>x\<rfloor> \<or> round_half_even x = \<lfloor>x\<rfloor> + 1"
  by (auto simp: round_half_even_def Let_def)

lemma rhe_of_int [simp]: "round_half_even (of_int k) = k"
  by (simp add: round_half_even_def)

lemma rhe_lower: "\<lfloor>x\<rfloor> \<le> round_half_even x"
  using rhe_cases [of x] by auto

lemma rhe_upper: "round_half_even x \<le> \<lceil>x\<rceil>"
proof (cases "x = of_int \<lfloor>x\<rfloor>")
  case True
  then have "round_half_even x = \<lfloor>x\<rfloor>" by (metis rhe_of_int)
  then show ?thesis by (simp add: floor_le_ceiling)
next
  case False
  then have "\<lceil>x\<rceil> = \<lfloor>x\<rfloor> + 1" by (metis ceiling_altdef)
  then show ?thesis using rhe_cases [of x] by auto
qed

lemma rhe_mono: "x \<le> y \<Longrightarrow> round_half_even x \<le> round_half_even y"
proof -
  assume le: "x \<le> y"
  have fl: "\<lfloor>x\<rfloor> \<le> \<lfloor>y\<rfloor>" using le by (rule floor_mono)
  show ?thesis
  proof (cases "\<lfloor>x\<rfloor> = \<lfloor>y\<rfloor>")
    case True
    then have "x - of_int \<lfloor>x\<rfloor> \<le> y - of_int \<lfloor>y\<rfloor>" using le by simp
    then show ?thesis using True by (auto simp: round_half_even_def Let_def)
  next
    case False
    then have "\<lfloor>x\<rfloor> + 1 \<le> \<lfloor>y\<rfloor>" using fl by simp
    then show ?thesis using rhe_cases [of x] rhe_lower [of y] by linarith
  qed
qed

lemma rhe_le_int: "x \<le> of_int k \<Longrightarrow> round_half_even x \<le> k"
  using rhe_mono [of x "of_int k"] by simp

lemma rhe_ge_int: "of_int k \<le> x \<Longrightarrow> k \<le> round_half_even x"
  using rhe_mono [of "of_int k" x] by simp

lemma bitlen_nonneg: "0 \<le> bitlen n"
  by (induction n rule: bitlen.induct) (subst bitlen.simps, simp)

lemma bitlen_pos: "0 < n \<Longrightarrow> 1 \<le> bitlen n"
  using bitlen_nonneg [of "n div 2"] by (subst bitlen.simps) simp

lemma bitlen_bounds:
  "0 < n \<Longrightarrow> 2 ^ nat (bitlen n - 1) \<le> n \<and> n < 2 ^ nat (bitlen n)"
proof (induction n rule: bitlen.induct)
  case (1 n)
  show ?case
  proof (cases "n = 1")
    case True
    have "bitlen 1 = 1" by (subst bitlen.simps, simp, subst bitlen.simps, simp)
    then show ?thesis using True by simp
  next
    case False
    then have h: "0 < n div 2" using "1.prems" by simp
    have ih: "2 ^ nat (bitlen (n div 2) - 1) \<le> n div 2 \<and> n div 2 < 2 ^ nat (bitlen (n div 2))"
      using "1.IH" "1.prems" h by simp
    have b: "bitlen n = 1 + bitlen (n div 2)" using "1.prems" by (subst bitlen.simps) simp
    have p: "1 \<le> bitlen (n div 2)" using h by (rule bitlen_pos)
    have e1: "nat (bitlen n - 1) = Suc (nat (bitlen (n div 2) - 1))" using b p by simp
    have e2: "nat (bitlen n) = Suc (nat (bitlen (n div 2)))" using b p by simp
    show ?thesis unfolding e1 e2 using ih by auto
  qed
qed

lemma bitlen_bounds_rat:
  assumes "0 < n"
  shows "2 powi (bitlen n - 1) \<le> (of_int n :: rat)" and "(of_int n :: rat) < 2 powi (bitlen n)"
proof -
  have p: "1 \<le> bitlen n" using assms by (rule bitlen_pos)
  have "(of_int (2 ^ nat (bitlen n - 1)) :: rat) \<le> of_int n"
    using bitlen_bounds [OF assms] by (simp only: of_int_le_iff)
  then show "2 powi (bitlen n - 1) \<le> (of_int n :: rat)"
    using p by (simp add: power_int_def)
  have "(of_int n :: rat) < of_int (2 ^ nat (bitlen n))"
    using bitlen_bounds [OF assms] by (simp only: of_int_less_iff)
  then show "(of_int n :: rat) < 2 powi (bitlen n)"
    using p by (simp add: power_int_def)
qed

lemma powi2_pos [simp]: "0 < (2::rat) powi e"
  by simp

lemma powi2_mono: "e \<le> e' \<Longrightarrow> (2::rat) powi e \<le> 2 powi e'"
  by (rule power_int_increasing) auto

lemma powi2_strict_mono: "e < e' \<Longrightarrow> (2::rat) powi e < 2 powi e'"
  by (rule power_int_strict_increasing) auto

lemma powi2_less_imp: "(2::rat) powi e < 2 powi e' \<Longrightarrow> e < e'"
  using powi2_mono [of e' e] by (cases "e < e'") auto

lemma ilog2_bounds:
  assumes "0 < a"
  shows "2 powi (ilog2 a) \<le> a \<and> a < 2 powi (ilog2 a + 1)"
proof -
  obtain p q where pq: "quotient_of a = (p, q)" by (cases "quotient_of a")
  have q0: "0 < q" using pq by (rule quotient_of_denom_pos)
  have a: "a = of_int p / of_int q" using pq by (rule quotient_of_div)
  have p0: "0 < p" using assms a q0 by (simp add: zero_less_divide_iff)
  let ?e = "bitlen p - bitlen q"
  have qr: "(0::rat) < of_int q" using q0 by simp
  have up: "a < 2 powi (?e + 1)"
  proof -
    have "of_int p < (2::rat) powi (bitlen p)" using p0 by (rule bitlen_bounds_rat)
    also have "\<dots> = 2 powi (?e + 1) * 2 powi (bitlen q - 1)"
      by (simp add: power_int_add [symmetric])
    also have "\<dots> \<le> 2 powi (?e + 1) * of_int q"
      using bitlen_bounds_rat(1) [OF q0] by (intro mult_left_mono) auto
    finally show ?thesis using qr by (simp add: a pos_divide_less_eq)
  qed
  have lo: "2 powi (?e - 1) \<le> a"
  proof -
    have "(2::rat) powi (?e - 1) * of_int q \<le> 2 powi (?e - 1) * 2 powi (bitlen q)"
      using bitlen_bounds_rat(2) [OF q0] by (intro mult_left_mono) auto
    also have "\<dots> = 2 powi (bitlen p - 1)"
      by (simp add: power_int_add [symmetric])
    also have "\<dots> \<le> of_int p" using p0 by (rule bitlen_bounds_rat)
    finally show ?thesis using qr by (simp add: a pos_le_divide_eq)
  qed
  show ?thesis
    using up lo by (simp add: ilog2_def pq Let_def)
qed

lemma ilog2_unique:
  assumes "2 powi e \<le> a" and "a < 2 powi (e + 1)"
  shows "ilog2 a = e"
proof -
  have a0: "0 < a" using assms(1) powi2_pos [of e] by linarith
  note b = ilog2_bounds [OF a0]
  have "2 powi e < (2::rat) powi (ilog2 a + 1)" using assms(1) b by linarith
  then have 1: "e < ilog2 a + 1" by (rule powi2_less_imp)
  have "2 powi (ilog2 a) < (2::rat) powi (e + 1)" using assms(2) b by linarith
  then have 2: "ilog2 a < e + 1" by (rule powi2_less_imp)
  show ?thesis using 1 2 by simp
qed

lemma round_mag_pos_eq:
  "0 < a \<Longrightarrow>
     round_mag a =
       of_int (round_half_even (a / 2 powi (max (ilog2 a) (- 1022) - 52)))
         * 2 powi (max (ilog2 a) (- 1022) - 52)"
  by (simp add: round_mag_def Let_def)

lemma round_mag_nonneg: "0 \<le> a \<Longrightarrow> 0 \<le> round_mag a"
proof (cases "a = 0")
  case True
  then show ?thesis by (simp add: round_mag_def)
next
  case False
  assume "0 \<le> a"
  then have a0: "0 < a" using False by simp
  let ?q = "(2::rat) powi (max (ilog2 a) (- 1022) - 52)"
  have "(of_int 0 :: rat) \<le> a / ?q" using a0 by simp
  then have "0 \<le> round_half_even (a / ?q)" by (rule rhe_ge_int)
  then show ?thesis using a0 by (simp add: round_mag_pos_eq)
qed

lemma powi2_split: "(2::rat) powi (e + 1) = of_int (2 ^ 53) * 2 powi (e - 52)"
proof -
  have "(2::rat) powi (53 + (e - 52)) = 2 powi 53 * 2 powi (e - 52)"
    by (rule power_int_add) simp
  moreover have "53 + (e - 52) = e + 1" by simp
  ultimately have a: "(2::rat) powi (e + 1) = 2 powi 53 * 2 powi (e - 52)" by (simp only:)
  have b: "(2::rat) powi 53 = of_int (2 ^ 53)" by (simp add: power_int_def)
  show ?thesis unfolding a b ..
qed

lemma powi2_split52: "(2::rat) powi e = of_int (2 ^ 52) * 2 powi (e - 52)"
proof -
  have "(2::rat) powi (52 + (e - 52)) = 2 powi 52 * 2 powi (e - 52)"
    by (rule power_int_add) simp
  moreover have "52 + (e - 52) = e" by simp
  ultimately have a: "(2::rat) powi e = 2 powi 52 * 2 powi (e - 52)" by (simp only:)
  have b: "(2::rat) powi 52 = of_int (2 ^ 52)" by (simp add: power_int_def)
  show ?thesis unfolding a b ..
qed

lemma round_mag_upper:
  assumes "0 < a"
  shows "round_mag a \<le> 2 powi (max (ilog2 a) (- 1022) + 1)"
proof -
  let ?e = "max (ilog2 a) (- 1022)"
  let ?q = "(2::rat) powi (?e - 52)"
  have "a < 2 powi (ilog2 a + 1)" using ilog2_bounds [OF assms] by simp
  also have "\<dots> \<le> 2 powi (?e + 1)" by (rule powi2_mono) simp
  finally have "a \<le> of_int (2 ^ 53) * ?q" by (simp only: powi2_split [symmetric])
  then have "a / ?q \<le> of_int (2 ^ 53)" by (simp add: pos_divide_le_eq)
  then have "round_half_even (a / ?q) \<le> 2 ^ 53" by (rule rhe_le_int)
  then have "(of_int (round_half_even (a / ?q)) :: rat) \<le> of_int (2 ^ 53)"
    by (simp only: of_int_le_iff)
  then have "of_int (round_half_even (a / ?q)) * ?q \<le> of_int (2 ^ 53) * ?q"
    by (intro mult_right_mono) auto
  then show ?thesis by (simp only: powi2_split [symmetric] round_mag_pos_eq [OF assms])
qed

lemma round_mag_lower:
  assumes "0 < a" and "- 1022 \<le> ilog2 a"
  shows "2 powi (ilog2 a) \<le> round_mag a"
proof -
  let ?e = "ilog2 a"
  let ?q = "(2::rat) powi (?e - 52)"
  have m: "max ?e (- 1022) = ?e" using assms(2) by simp
  have "of_int (2 ^ 52) * ?q \<le> a"
    using ilog2_bounds [OF assms(1)] by (simp only: powi2_split52 [symmetric])
  then have "of_int (2 ^ 52) \<le> a / ?q" by (simp add: pos_le_divide_eq)
  then have "2 ^ 52 \<le> round_half_even (a / ?q)" by (rule rhe_ge_int)
  then have "(of_int (2 ^ 52) :: rat) \<le> of_int (round_half_even (a / ?q))"
    by (simp only: of_int_le_iff)
  then have "of_int (2 ^ 52) * ?q \<le> of_int (round_half_even (a / ?q)) * ?q"
    by (intro mult_right_mono) auto
  then show ?thesis
    using round_mag_pos_eq [OF assms(1)] by (simp only: powi2_split52 [symmetric] m)
qed

lemma ilog2_mono:
  assumes "0 < x" and "x \<le> y"
  shows "ilog2 x \<le> ilog2 y"
proof -
  have y0: "0 < y" using assms by simp
  have "2 powi (ilog2 x) \<le> x" using ilog2_bounds [OF assms(1)] by simp
  also have "x \<le> y" by fact
  also have "y < 2 powi (ilog2 y + 1)" using ilog2_bounds [OF y0] by simp
  finally have "ilog2 x < ilog2 y + 1" by (rule powi2_less_imp)
  then show ?thesis by simp
qed

lemma round_mag_mono:
  assumes "0 \<le> x" and "x \<le> y"
  shows "round_mag x \<le> round_mag y"
proof (cases "x = 0")
  case True
  then show ?thesis using round_mag_nonneg [of y] assms by (simp add: round_mag_def)
next
  case False
  then have x0: "0 < x" using assms(1) by simp
  then have y0: "0 < y" using assms(2) by simp
  let ?cx = "max (ilog2 x) (- 1022)"
  let ?cy = "max (ilog2 y) (- 1022)"
  have le: "?cx \<le> ?cy" using ilog2_mono [OF x0 assms(2)] by simp
  show ?thesis
  proof (cases "?cx = ?cy")
    case True
    let ?q = "(2::rat) powi (?cy - 52)"
    have "x / ?q \<le> y / ?q" using assms(2) by (simp add: divide_right_mono)
    then have "round_half_even (x / ?q) \<le> round_half_even (y / ?q)" by (rule rhe_mono)
    then have "(of_int (round_half_even (x / ?q)) :: rat) \<le> of_int (round_half_even (y / ?q))"
      by (simp only: of_int_le_iff)
    then have "of_int (round_half_even (x / ?q)) * ?q \<le> of_int (round_half_even (y / ?q)) * ?q"
      by (intro mult_right_mono) auto
    then show ?thesis
      using round_mag_pos_eq [OF x0] round_mag_pos_eq [OF y0] True by simp
  next
    case False
    have lt: "?cx < ?cy" using le False by linarith
    have big: "- 1022 \<le> ilog2 y" using lt by linarith
    have cy: "?cy = ilog2 y" using big by simp
    have "round_mag x \<le> 2 powi (?cx + 1)" using x0 by (rule round_mag_upper)
    also have "\<dots> \<le> 2 powi (ilog2 y)"
    proof (rule powi2_mono)
      show "?cx + 1 \<le> ilog2 y" using lt cy by linarith
    qed
    also have "\<dots> \<le> round_mag y" using y0 big by (rule round_mag_lower)
    finally show ?thesis .
  qed
qed

text \<open>Values on the grid are fixed points.\<close>

lemma round_mag_grid:
  assumes e: "- 1022 \<le> e" and n0: "0 < n" and n1: "n \<le> 2 ^ 53"
    and norm: "2 ^ 52 \<le> n \<or> e = - 1022"
  shows "round_mag (of_int n * 2 powi (e - 52)) = of_int n * 2 powi (e - 52)"
proof -
  let ?q = "(2::rat) powi (e - 52)"
  let ?v = "of_int n * ?q"
  have v0: "0 < ?v" using n0 by simp
  have nr: "(of_int n :: rat) \<le> of_int (2 ^ 53)" using n1 by (simp only: of_int_le_iff)
  show ?thesis
  proof (cases "n = 2 ^ 53")
    case True
    then have v: "?v = 2 powi (e + 1)" by (simp only: powi2_split)
    have "ilog2 ?v = e + 1" unfolding v by (rule ilog2_unique) (auto intro: powi2_strict_mono)
    then have m: "max (ilog2 ?v) (- 1022) = e + 1" using e by simp
    have d: "?v / 2 powi (e + 1 - 52) = of_int (2 ^ 52)"
      unfolding v by (simp only: powi2_split52 [of "e + 1"]) simp
    show ?thesis
      unfolding round_mag_pos_eq [OF v0] m d rhe_of_int
      using v by (simp only: powi2_split52 [of "e + 1", symmetric])
  next
    case False
    then have "n < 2 ^ 53" using n1 by simp
    then have "(of_int n :: rat) < of_int (2 ^ 53)" by (simp only: of_int_less_iff)
    then have "?v < of_int (2 ^ 53) * ?q" by (intro mult_strict_right_mono) auto
    then have up: "?v < 2 powi (e + 1)" by (simp only: powi2_split [symmetric])
    have m: "max (ilog2 ?v) (- 1022) = e"
    proof (cases "2 ^ 52 \<le> n")
      case True
      then have "(of_int (2 ^ 52) :: rat) \<le> of_int n" by (simp only: of_int_le_iff)
      then have "of_int (2 ^ 52) * ?q \<le> ?v" by (intro mult_right_mono) auto
      then have "2 powi e \<le> ?v" by (simp only: powi2_split52 [symmetric])
      then have "ilog2 ?v = e" using up by (rule ilog2_unique)
      then show ?thesis using e by simp
    next
      case False
      then have e': "e = - 1022" using norm by simp
      have "2 powi (ilog2 ?v) \<le> ?v" using ilog2_bounds [OF v0] by simp
      then have "(2::rat) powi (ilog2 ?v) < 2 powi (e + 1)" using up by linarith
      then have "ilog2 ?v < e + 1" by (rule powi2_less_imp)
      then show ?thesis using e' by simp
    qed
    have d: "?v / ?q = of_int n" by simp
    show ?thesis unfolding round_mag_pos_eq [OF v0] m d rhe_of_int ..
  qed
qed

lemma round_mag_idem:
  assumes "0 \<le> a"
  shows "round_mag (round_mag a) = round_mag a"
proof (cases "round_mag a = 0")
  case True
  then show ?thesis by (simp add: round_mag_def)
next
  case False
  then have a0: "0 < a" using assms by (cases "a = 0") (auto simp: round_mag_def)
  let ?e = "max (ilog2 a) (- 1022)"
  let ?q = "(2::rat) powi (?e - 52)"
  let ?n = "round_half_even (a / ?q)"
  have eq: "round_mag a = of_int ?n * ?q" using a0 by (rule round_mag_pos_eq)
  have "(of_int 0 :: rat) \<le> a / ?q" using a0 by simp
  then have "0 \<le> ?n" by (rule rhe_ge_int)
  moreover have "?n \<noteq> 0" using False eq by auto
  ultimately have n0: "0 < ?n" by simp
  have "round_mag a \<le> 2 powi (?e + 1)" using a0 by (rule round_mag_upper)
  then have "of_int ?n * ?q \<le> of_int (2 ^ 53) * ?q" by (simp only: eq powi2_split)
  then have "(of_int ?n :: rat) \<le> of_int (2 ^ 53)" by (simp only: mult_le_cancel_right) simp
  then have n1: "?n \<le> 2 ^ 53" by (simp only: of_int_le_iff)
  have norm: "2 ^ 52 \<le> ?n \<or> ?e = - 1022"
  proof (cases "- 1022 \<le> ilog2 a")
    case True
    then have m: "?e = ilog2 a" by simp
    have "2 powi (ilog2 a) \<le> round_mag a" using a0 True by (rule round_mag_lower)
    then have "of_int (2 ^ 52) * ?q \<le> of_int ?n * ?q"
      unfolding eq by (simp only: m powi2_split52 [symmetric])
    then have "(of_int (2 ^ 52) :: rat) \<le> of_int ?n" by (simp only: mult_le_cancel_right) simp
    then show ?thesis by (simp only: of_int_le_iff) simp
  next
    case False
    then show ?thesis by simp
  qed
  have "round_mag (of_int ?n * ?q) = of_int ?n * ?q"
    by (rule round_mag_grid [OF _ n0 n1 norm]) simp
  then show ?thesis by (simp only: eq)
qed

lemma rhe_below_half:
  "of_int k \<le> y \<Longrightarrow> y < of_int k + 1 / 2 \<Longrightarrow> round_half_even y = k"
proof -
  assume a: "of_int k \<le> y" "y < of_int k + 1 / 2"
  then have "\<lfloor>y\<rfloor> = k" by (intro floor_unique) auto
  then show ?thesis using a by (simp add: round_half_even_def Let_def)
qed

text \<open>Integers up to \<open>2 ^ 53\<close> are on the grid.\<close>

lemma round_mag_int:
  assumes "0 \<le> k" and "k \<le> 2 ^ 53"
  shows "round_mag (of_int k) = of_int k"
proof (cases "k = 0")
  case True
  then show ?thesis by (simp add: round_mag_def)
next
  case False
  then have k0: "0 < k" using assms(1) by simp
  then have kr: "(0::rat) < of_int k" by simp
  let ?e = "ilog2 (of_int k)"
  note b = ilog2_bounds [OF kr]
  have "(2::rat) powi 0 \<le> of_int k" using k0 by simp
  then have "(2::rat) powi 0 < 2 powi (?e + 1)" using b by linarith
  then have "0 < ?e + 1" by (rule powi2_less_imp)
  then have e0: "0 \<le> ?e" by simp
  show ?thesis
  proof (cases "k = 2 ^ 53")
    case True
    have "round_mag (of_int (2 ^ 52) * 2 powi (53 - 52)) = of_int (2 ^ 52) * 2 powi (53 - 52)"
      by (rule round_mag_grid) simp_all
    then show ?thesis using True by simp
  next
    case False
    then have "k < 2 ^ 53" using assms(2) by simp
    then have "(of_int k :: rat) < of_int (2 ^ 53)" by (simp only: of_int_less_iff)
    then have "(of_int k :: rat) < 2 powi 53" by (simp add: power_int_def)
    then have "(2::rat) powi ?e < 2 powi 53" using b by linarith
    then have e1: "?e < 53" by (rule powi2_less_imp)
    let ?s = "nat (52 - ?e)"
    let ?n = "k * 2 ^ ?s"
    have q: "(2::rat) powi (?e - 52) = 1 / 2 ^ ?s"
      using e1 by (simp add: power_int_def inverse_eq_divide power_one_over [symmetric] del: power_one_over)
    have v: "of_int ?n * (2::rat) powi (?e - 52) = of_int k" unfolding q by simp
    have pe: "(2::rat) powi ?e * 2 ^ ?s = 2 powi 52"
    proof -
      have "(2::rat) powi ?e * 2 powi (int ?s) = 2 powi (?e + int ?s)"
        by (rule power_int_add [symmetric]) simp
      moreover have "?e + int ?s = 52" using e1 by simp
      ultimately show ?thesis by (simp only: power_int_of_nat)
    qed
    have pe1: "(2::rat) powi (?e + 1) * 2 ^ ?s = 2 powi 53"
    proof -
      have "(2::rat) powi (?e + 1) * 2 powi (int ?s) = 2 powi (?e + 1 + int ?s)"
        by (rule power_int_add [symmetric]) simp
      moreover have "?e + 1 + int ?s = 53" using e1 by simp
      ultimately show ?thesis by (simp only: power_int_of_nat)
    qed
    have "(2::rat) powi ?e * 2 ^ ?s \<le> of_int k * 2 ^ ?s"
      using b by (intro mult_right_mono) auto
    then have "(of_int (2 ^ 52) :: rat) \<le> of_int ?n"
      unfolding pe by (simp add: power_int_def)
    then have n52: "2 ^ 52 \<le> ?n" by (simp only: of_int_le_iff)
    have "of_int k * 2 ^ ?s < (2::rat) powi (?e + 1) * 2 ^ ?s"
      using b by (intro mult_strict_right_mono) auto
    then have "(of_int ?n :: rat) < of_int (2 ^ 53)"
      unfolding pe1 by (simp add: power_int_def)
    then have n53: "?n < 2 ^ 53" by (simp only: of_int_less_iff)
    have "round_mag (of_int ?n * 2 powi (?e - 52)) = of_int ?n * 2 powi (?e - 52)"
    proof (rule round_mag_grid)
      show "- 1022 \<le> ?e" using e0 by simp
      show "0 < ?n" using n52 by simp
      show "?n \<le> 2 ^ 53" using n53 by simp
      show "2 ^ 52 \<le> ?n \<or> ?e = - 1022" using n52 by simp
    qed
    then show ?thesis by (simp only: v)
  qed
qed

lemma powi2_ge_one_imp: "1 \<le> (2::rat) powi e \<Longrightarrow> 0 \<le> e"
proof (rule ccontr)
  assume a: "1 \<le> (2::rat) powi e" and "\<not> 0 \<le> e"
  then have "e < 0" by simp
  then have "(2::rat) powi e < 2 powi 0" by (rule powi2_strict_mono)
  then show False using a by simp
qed

text \<open>The floor of a grid value is on the grid.\<close>

lemma round_mag_floor:
  assumes "0 \<le> a"
  shows "round_mag (of_int \<lfloor>round_mag a\<rfloor>) = of_int \<lfloor>round_mag a\<rfloor>"
proof (cases "round_mag a < 2 ^ 53")
  case True
  have "0 \<le> \<lfloor>round_mag a\<rfloor>" using round_mag_nonneg [OF assms] by simp
  moreover have "\<lfloor>round_mag a\<rfloor> \<le> 2 ^ 53"
  proof -
    have "of_int \<lfloor>round_mag a\<rfloor> \<le> round_mag a" by (rule of_int_floor_le)
    then have "(of_int \<lfloor>round_mag a\<rfloor> :: rat) \<le> of_int (2 ^ 53)" using True by simp
    then show ?thesis by (simp only: of_int_le_iff)
  qed
  ultimately show ?thesis by (rule round_mag_int)
next
  case False
  then have big: "2 ^ 53 \<le> round_mag a" by simp
  then have a0: "0 < a" using assms by (cases "a = 0") (auto simp: round_mag_def)
  let ?e = "max (ilog2 a) (- 1022)"
  let ?q = "(2::rat) powi (?e - 52)"
  let ?n = "round_half_even (a / ?q)"
  have eq: "round_mag a = of_int ?n * ?q" using a0 by (rule round_mag_pos_eq)
  have "round_mag a \<le> 2 powi (?e + 1)" using a0 by (rule round_mag_upper)
  then have "of_int (2 ^ 53) * 1 \<le> of_int (2 ^ 53) * ?q"
    using big by (simp only: powi2_split) simp
  then have "1 \<le> ?q" by (simp only: mult_le_cancel_left) simp
  then have "0 \<le> ?e - 52" by (rule powi2_ge_one_imp)
  then have "?q = of_int (2 ^ nat (?e - 52))" by (simp add: power_int_def)
  then have z: "round_mag a = of_int (?n * 2 ^ nat (?e - 52))" using eq by simp
  have "round_mag (round_mag a) = round_mag a" using assms by (rule round_mag_idem)
  then have "round_mag (of_int (?n * 2 ^ nat (?e - 52))) = of_int (?n * 2 ^ nat (?e - 52))"
    by (simp only: z)
  moreover have "\<lfloor>round_mag a\<rfloor> = ?n * 2 ^ nat (?e - 52)" by (simp only: z floor_of_int)
  ultimately show ?thesis by (simp only:)
qed

text \<open>A grid value below 1 is at most \<open>1 - 2^-53\<close>.\<close>

lemma grid_below_one:
  assumes g: "round_mag rv = rv" and r0: "0 \<le> rv" and r1: "rv < 1"
  shows "rv \<le> 1 - 1 / 2 ^ 53"
proof (cases "rv < 1 / 2")
  case True
  then show ?thesis by simp
next
  case False
  then have h: "1 / 2 \<le> rv" by simp
  then have p: "0 < rv" by simp
  have "ilog2 rv = - 1"
  proof (rule ilog2_unique)
    show "2 powi (- 1) \<le> rv" using h by (simp add: power_int_def)
    show "rv < 2 powi (- 1 + 1)" using r1 by simp
  qed
  then have m: "max (ilog2 rv) (- 1022) - 52 = - 53" by simp
  have q: "(2::rat) powi (- 53) = 1 / 2 ^ 53"
    by (simp add: power_int_def inverse_eq_divide power_divide)
  let ?k = "round_half_even (rv / (1 / 2 ^ 53))"
  have eq: "rv = of_int ?k * (1 / 2 ^ 53)"
    using round_mag_pos_eq [OF p] g unfolding m q by simp
  then have "of_int ?k * (1 / 2 ^ 53) < (1::rat)" using r1 by simp
  then have "(of_int ?k :: rat) < of_int (2 ^ 53)" by simp
  then have "?k < 2 ^ 53" by (simp only: of_int_less_iff)
  then have "?k \<le> 2 ^ 53 - 1" by simp
  then have "(of_int ?k :: rat) \<le> of_int (2 ^ 53 - 1)" by (simp only: of_int_le_iff)
  then have "of_int ?k * (1 / 2 ^ 53) \<le> (of_int (2 ^ 53 - 1) :: rat) * (1 / 2 ^ 53)"
    by (intro mult_right_mono) auto
  then have "rv \<le> (of_int (2 ^ 53 - 1) :: rat) * (1 / 2 ^ 53)" using eq by simp
  then show ?thesis by simp
qed

text \<open>A product with a factor below 1 rounds strictly below a normal grid value.\<close>

lemma round_mag_mult_less:
  assumes gr: "round_mag rv = rv" and r0: "0 \<le> rv" and r1: "rv < 1"
    and gm: "round_mag m = m" and m1: "1 \<le> m"
  shows "round_mag (rv * m) < m"
proof -
  have m0: "0 < m" using m1 by simp
  define e where "e = ilog2 m"
  define q where "q = (2::rat) powi (e - 52)"
  define n where "n = round_half_even (m / q)"
  have q0: "0 < q" by (simp add: q_def)
  have b1: "2 powi e \<le> m" and b2: "m < 2 powi (e + 1)"
    using ilog2_bounds [OF m0] by (simp_all add: e_def)
  have s52: "(2::rat) powi e = of_int (2 ^ 52) * q" unfolding q_def by (rule powi2_split52)
  have s53: "(2::rat) powi (e + 1) = of_int (2 ^ 53) * q" unfolding q_def by (rule powi2_split)
  have "(2::rat) powi 0 < 2 powi (e + 1)" using m1 b2 by simp
  then have "0 < e + 1" by (rule powi2_less_imp)
  then have e0: "0 \<le> e" by simp
  then have mx: "max (ilog2 m) (- 1022) = e" by (simp add: e_def)
  have eq: "m = of_int n * q"
    using round_mag_pos_eq [OF m0] gm by (simp add: mx n_def q_def)
  have "of_int (2 ^ 52) * q \<le> of_int n * q" using b1 by (simp only: s52 eq)
  then have "(of_int (2 ^ 52) :: rat) \<le> of_int n" using q0 by (simp only: mult_le_cancel_right)
  then have n52: "2 ^ 52 \<le> n" by (simp only: of_int_le_iff)
  have "of_int n * q < of_int (2 ^ 53) * q" using b2 by (simp only: s53 eq)
  then have "(of_int n :: rat) < of_int (2 ^ 53)" using q0 by (simp only: mult_less_cancel_right)
  then have n53: "n < 2 ^ 53" by (simp only: of_int_less_iff)
  have x0: "0 \<le> rv * m" using r0 m0 by simp
  have "rv * m \<le> (1 - 1 / 2 ^ 53) * m"
    using grid_below_one [OF gr r0 r1] m0 by (intro mult_right_mono) auto
  then have xle: "rv * m \<le> m - m / 2 ^ 53" by (simp add: algebra_simps)
  have qh: "q / 2 = 2 powi e / 2 ^ 53" by (simp add: s52)
  show ?thesis
  proof (cases "n = 2 ^ 52")
    case True
    then have me: "m = 2 powi e" by (simp only: eq s52)
    define p where "p = of_int (2 ^ 53 - 1) * (2::rat) powi (e - 1 - 52)"
    have q2: "(2::rat) powi (e - 1 - 52) = q / 2"
    proof -
      have "(2::rat) powi (e - 52 + (- 1)) = 2 powi (e - 52) * 2 powi (- 1)"
        by (rule power_int_add) simp
      moreover have "e - 52 + (- 1) = e - 1 - 52" by simp
      ultimately show ?thesis by (simp add: power_int_def q_def)
    qed
    have pv: "p = m - m / 2 ^ 53"
      unfolding p_def q2 qh me by (simp add: algebra_simps)
    have "round_mag p = p" unfolding p_def
    proof (rule round_mag_grid)
      show "- 1022 \<le> e - 1" using e0 by simp
    qed simp_all
    then have "round_mag (rv * m) \<le> p"
      using round_mag_mono [OF x0, of p] xle pv by simp
    also have "p < m" using pv m0 by simp
    finally show ?thesis .
  next
    case False
    then have n1: "2 ^ 52 \<le> n - 1" using n52 by simp
    define p where "p = of_int (n - 1) * q"
    have gp: "round_mag p = p" unfolding p_def q_def
    proof (rule round_mag_grid)
      show "- 1022 \<le> e" using e0 by simp
      show "0 < n - 1" using n1 by simp
      show "n - 1 \<le> 2 ^ 53" using n53 by simp
      show "2 ^ 52 \<le> n - 1 \<or> e = - 1022" using n1 by simp
    qed
    have pm: "p = m - q" by (simp add: p_def eq algebra_simps)
    have plt: "p < m" using pm q0 by simp
    show ?thesis
    proof (cases "rv * m \<le> p")
      case True
      then have "round_mag (rv * m) \<le> p" using round_mag_mono [OF x0 True] gp by simp
      then show ?thesis using plt by simp
    next
      case False
      then have lo: "p < rv * m" by simp
      have "(of_int (2 ^ 52) :: rat) \<le> of_int (n - 1)" using n1 by (simp only: of_int_le_iff)
      then have "of_int (2 ^ 52) * q \<le> of_int (n - 1) * q" using q0 by (intro mult_right_mono) auto
      then have pe: "2 powi e \<le> p" by (simp only: s52 p_def)
      have xm: "rv * m < m" using r1 m0 by simp
      have "ilog2 (rv * m) = e"
      proof (rule ilog2_unique)
        show "2 powi e \<le> rv * m" using pe lo by simp
        show "rv * m < 2 powi (e + 1)" using xm b2 by simp
      qed
      then have mx': "max (ilog2 (rv * m)) (- 1022) = e" using e0 by simp
      have xp: "0 < rv * m" using lo pe powi2_pos [of e] by linarith
      have "2 powi e + q \<le> p + q" using pe by simp
      then have "2 powi e + q \<le> m" using pm by simp
      then have "2 powi e < m" using q0 by simp
      then have "2 powi e / 2 ^ 53 < m / 2 ^ 53" by (simp add: divide_strict_right_mono)
      then have "q / 2 < m / 2 ^ 53" by (simp only: qh)
      then have "rv * m < m - q / 2" using xle by simp
      then have "rv * m < (of_int (n - 1) + 1 / 2) * q" by (simp add: eq algebra_simps)
      then have u: "rv * m / q < of_int (n - 1) + 1 / 2" using q0 by (simp add: pos_divide_less_eq)
      have l: "of_int (n - 1) \<le> rv * m / q" using lo q0 by (simp add: p_def pos_le_divide_eq)
      have "round_half_even (rv * m / q) = n - 1" using l u by (rule rhe_below_half)
      then have "round_mag (rv * m) = p"
        using round_mag_pos_eq [OF xp] by (simp add: mx' p_def q_def)
      then show ?thesis using plt by simp
    qed
  qed
qed

lemma dround_nonneg:
  "0 \<le> x \<Longrightarrow> dround x = (if 2 ^ 1024 \<le> round_mag x then PosInf else Fin (round_mag x))"
  by (auto simp: dround_def Let_def round_mag_def)

lemma dround_Fin_grid:
  assumes "dround x = Fin x" and "0 \<le> x"
  shows "round_mag x = x"
  using assms by (simp add: dround_nonneg split: if_splits)

lemma round_mag_pow2: "round_mag (2 ^ n) = 2 ^ n"
proof -
  have "round_mag (of_int (2 ^ 52) * 2 powi (int n - 52)) = of_int (2 ^ 52) * 2 powi (int n - 52)"
    by (rule round_mag_grid) simp_all
  moreover have "of_int (2 ^ 52) * (2::rat) powi (int n - 52) = 2 ^ n"
    using powi2_split52 [of "int n"] by simp
  ultimately show ?thesis by (simp only:)
qed

lemma dpow2_eq: "dpow2 n = (if n < 1024 then Fin (2 ^ n) else PosInf)"
proof -
  have "((2::rat) ^ 1024 \<le> 2 ^ n) = (1024 \<le> n)" by (rule power_increasing_iff) simp
  then show ?thesis by (auto simp: dpow2_def dround_nonneg round_mag_pow2)
qed

lemma round_mag_min:
  "0 \<le> x \<Longrightarrow> 0 \<le> y \<Longrightarrow> min (round_mag x) (round_mag y) = round_mag (min x y)"
  using round_mag_mono [of x y] round_mag_mono [of y x] by (cases "x \<le> y") (auto simp: min_def)

lemma maxDelay_finite:
  assumes w: "0 < w"
    and fin: "dmin (dmul (dpow2 n) (Fin w)) (dmul (Fin w) (Fin 10)) = Fin m"
  shows "m = round_mag (min (2 ^ n * w) (w * 10)) \<and> m < 2 ^ 1024"
proof -
  have x0: "0 \<le> 2 ^ n * w" and y0: "0 \<le> w * 10" using w by simp_all
  let ?A = "round_mag (2 ^ n * w)"
  let ?B = "round_mag (w * 10)"
  have second: "dmul (Fin w) (Fin 10) = (if 2 ^ 1024 \<le> ?B then PosInf else Fin ?B)"
    using y0 by (simp add: dmul_def dround_nonneg)
  show ?thesis
  proof (cases "n < 1024")
    case True
    have first: "dmul (dpow2 n) (Fin w) = (if 2 ^ 1024 \<le> ?A then PosInf else Fin ?A)"
      using True x0 by (simp add: dpow2_eq dmul_def dround_nonneg)
    have "m = min ?A ?B \<and> m < 2 ^ 1024"
      using fin unfolding first second by (auto simp: dmin_def split: if_splits)
    then show ?thesis using round_mag_min [OF x0 y0] by simp
  next
    case False
    then have first: "dmul (dpow2 n) (Fin w) = PosInf" using w by (simp add: dpow2_eq dmul_def)
    have mB: "m = ?B \<and> m < 2 ^ 1024"
      using fin unfolding first second by (auto simp: dmin_def split: if_splits)
    have "(2::rat) ^ 4 \<le> 2 ^ n" using False by (intro power_increasing) auto
    then have "(10::rat) \<le> 2 ^ n" by simp
    then have "w * 10 \<le> 2 ^ n * w" using w by (simp add: mult.commute mult_left_mono)
    then have "min (2 ^ n * w) (w * 10) = w * 10" by simp
    then show ?thesis using mB by simp
  qed
qed

lemma nextDelay_bound:
  assumes w: "0 < w" and gr: "dround rv = Fin rv" and r0: "0 \<le> rv" and r1: "rv < 1"
    and fin: "dmin (dmul (dpow2 n) (Fin w)) (dmul (Fin w) (Fin 10)) = Fin m"
  shows "\<exists>d. nextDelay n (Fin w) (Fin rv) = Fin (of_int d) \<and> 0 \<le> d
           \<and> of_int d \<le> min (2 ^ n * w) (10 * w)"
proof -
  define B where "B = min (2 ^ n * w) (w * 10)"
  have B0: "0 < B" using w by (simp add: B_def)
  have mB: "m = round_mag B" and mfin: "m < 2 ^ 1024"
    using maxDelay_finite [OF w fin] by (simp_all add: B_def)
  have gm: "round_mag m = m" unfolding mB using B0 by (intro round_mag_idem) simp
  have m0: "0 \<le> m" unfolding mB using B0 by (intro round_mag_nonneg) simp
  have grv: "round_mag rv = rv" using gr r0 by (rule dround_Fin_grid)
  define v where "v = round_mag (rv * m)"
  have x0: "0 \<le> rv * m" using r0 m0 by simp
  have "rv * m \<le> 1 * m" using r1 m0 by (intro mult_right_mono) simp_all
  then have "rv * m \<le> m" by simp
  then have "v \<le> round_mag m" unfolding v_def using x0 by (intro round_mag_mono)
  then have vm: "v \<le> m" using gm by simp
  have v0: "0 \<le> v" unfolding v_def using x0 by (rule round_mag_nonneg)
  have "dmul (Fin rv) (Fin m) = Fin v"
    using x0 vm mfin by (simp add: dmul_def dround_nonneg v_def)
  then have nd: "nextDelay n (Fin w) (Fin rv) = Fin (of_int \<lfloor>v\<rfloor>)"
    by (simp add: nextDelay_def fin dfloor_def)
  have d0: "0 \<le> \<lfloor>v\<rfloor>" using v0 by simp
  have dv: "of_int \<lfloor>v\<rfloor> \<le> v" by (rule of_int_floor_le)
  have "of_int \<lfloor>v\<rfloor> \<le> B"
  proof (rule ccontr)
    assume "\<not> of_int \<lfloor>v\<rfloor> \<le> B"
    then have gt: "B < of_int \<lfloor>v\<rfloor>" by simp
    have gd: "round_mag (of_int \<lfloor>v\<rfloor>) = of_int \<lfloor>v\<rfloor>"
      unfolding v_def using x0 by (rule round_mag_floor)
    have "round_mag B \<le> round_mag (of_int \<lfloor>v\<rfloor>)"
      using B0 gt by (intro round_mag_mono) simp_all
    then have "m \<le> of_int \<lfloor>v\<rfloor>" using gd mB by simp
    then have vm': "v = m" and dm: "of_int \<lfloor>v\<rfloor> = m" using dv vm by linarith+
    have "(0::rat) < of_int \<lfloor>v\<rfloor>" using B0 gt by (rule less_trans)
    then have "0 < \<lfloor>v\<rfloor>" by (simp only: of_int_0_less_iff)
    then have "1 \<le> \<lfloor>v\<rfloor>" by simp
    then have "(of_int 1 :: rat) \<le> of_int \<lfloor>v\<rfloor>" by (simp only: of_int_le_iff)
    then have m1: "1 \<le> m" using dm by simp
    have "round_mag (rv * m) < m" using grv r0 r1 gm m1 by (rule round_mag_mult_less)
    then show False using vm' by (simp add: v_def)
  qed
  then have "of_int \<lfloor>v\<rfloor> \<le> min (2 ^ n * w) (10 * w)" by (simp add: B_def mult.commute)
  then show ?thesis using nd d0 by blast
qed

lemma overflow_example:
  "nextDelay 1 (Fin (2 ^ 1023)) (Fin (1 / 2)) = PosInf"
proof -
  have a: "dmul (dpow2 1) (Fin (2 ^ 1023)) = PosInf"
    using round_mag_pow2 [of 1024] by (simp add: dpow2_eq dmul_def dround_nonneg)
  have "(2::rat) ^ 1024 \<le> 2 ^ 1023 * 10" by simp
  then have "round_mag (2 ^ 1024) \<le> round_mag (2 ^ 1023 * 10)" by (intro round_mag_mono) simp_all
  then have "(2::rat) ^ 1024 \<le> round_mag (2 ^ 1023 * 10)" by (simp only: round_mag_pow2)
  then have b: "dmul (Fin (2 ^ 1023)) (Fin 10) = PosInf"
    by (simp add: dmul_def dround_nonneg)
  show ?thesis unfolding nextDelay_def Let_def a b by (simp add: dmin_def dmul_def dfloor_def)
qed

lemma rhe_above_half:
  "of_int k - 1 / 2 < y \<Longrightarrow> y \<le> of_int k \<Longrightarrow> round_half_even y = k"
proof (cases "y = of_int k")
  case True
  then show ?thesis by simp
next
  case False
  assume a: "of_int k - 1 / 2 < y" "y \<le> of_int k"
  have "\<lfloor>y\<rfloor> = k - 1" using a False by (intro floor_unique) auto
  then show ?thesis using a by (simp add: round_half_even_def Let_def)
qed

lemma dround_int:
  assumes "0 \<le> k" and "k \<le> 2 ^ 53"
  shows "dround (of_int k) = Fin (of_int k)"
proof -
  have "(of_int k :: rat) \<le> of_int (2 ^ 53)" using assms(2) by (simp only: of_int_le_iff)
  then have "(of_int k :: rat) < 2 ^ 1024" by simp
  then show ?thesis using assms by (simp add: dround_nonneg round_mag_int)
qed

lemma dround_three_quarters: "dround (3 / 4) = Fin (3 / 4)"
proof -
  have "round_mag (of_int (3 * 2 ^ 51) * 2 powi (- 1 - 52)) = of_int (3 * 2 ^ 51) * 2 powi (- 1 - 52)"
    by (rule round_mag_grid) simp_all
  moreover have "of_int (3 * 2 ^ 51) * (2::rat) powi (- 1 - 52) = 3 / 4"
    by (simp add: power_int_def inverse_eq_divide power_divide)
  ultimately have "round_mag (3 / 4) = 3 / 4" by (simp only:)
  then show ?thesis by (simp add: dround_nonneg)
qed

lemma nextDelay_example: "nextDelay 0 (Fin 100) (Fin (3 / 4)) = Fin 75"
proof -
  have a: "dround 100 = Fin 100" using dround_int [of 100] by simp
  have b: "dround 1000 = Fin 1000" using dround_int [of 1000] by simp
  have c: "dround 75 = Fin 75" using dround_int [of 75] by simp
  show ?thesis by (simp add: nextDelay_def dpow2_eq dmul_def dmin_def dfloor_def a b c)
qed

text \<open>\<^verbatim>\<open>0.24 * 100\<close> is \<^verbatim>\<open>24\<close> in double precision, although the double nearest to 0.24 is
  below 0.24.\<close>

lemma dround_024: "dround (24 / 100) = Fin (8646911284551352 / 2 ^ 55)"
proof -
  have p: "(0::rat) < 24 / 100" by simp
  have "ilog2 (24 / 100) = - 3"
    by (rule ilog2_unique) (simp_all add: power_int_def inverse_eq_divide power_divide)
  then have m: "max (ilog2 (24 / 100)) (- 1022) - 52 = - 55" by simp
  have q: "(2::rat) powi (- 55) = 1 / 2 ^ 55"
    by (simp add: power_int_def inverse_eq_divide power_divide)
  have "round_half_even (24 / 100 / (1 / 2 ^ 55)) = 8646911284551352"
    by (rule rhe_below_half) simp_all
  then have "round_mag (24 / 100) = 8646911284551352 / 2 ^ 55"
    unfolding round_mag_pos_eq [OF p] m q by simp
  then show ?thesis by (simp add: dround_nonneg)
qed

lemma nextDelay_example_024: "nextDelay 0 (Fin 100) (dround (24 / 100)) = Fin 24"
proof -
  let ?x = "8646911284551352 / 2 ^ 55 * (100::rat)"
  have a: "dround 100 = Fin 100" using dround_int [of 100] by simp
  have b: "dround 1000 = Fin 1000" using dround_int [of 1000] by simp
  have p: "0 < ?x" by simp
  have "ilog2 ?x = 4"
    by (rule ilog2_unique) (simp_all add: power_int_def inverse_eq_divide power_divide)
  then have m: "max (ilog2 ?x) (- 1022) - 52 = - 48" by simp
  have q: "(2::rat) powi (- 48) = 1 / 2 ^ 48"
    by (simp add: power_int_def inverse_eq_divide power_divide)
  have "round_half_even (?x / (1 / 2 ^ 48)) = 6755399441055744"
    by (rule rhe_above_half) simp_all
  then have "round_mag ?x = 24"
    unfolding round_mag_pos_eq [OF p] m q by simp
  then have c: "dround ?x = Fin 24" by (simp add: dround_nonneg)
  have "dmul (Fin (8646911284551352 / 2 ^ 55)) (Fin 100) = Fin 24"
    unfolding dmul_def using c by simp
  then show ?thesis
    unfolding dround_024 by (simp add: nextDelay_def dpow2_eq dmin_def dfloor_def a b dmul_def)
qed

subsection \<open>Failure paths, backoff and runs\<close>


lemma exists_failure_is_lockFailed:
  "exists_cb c (Some e) stat r =
     lockFailed c
       (''unable to check the existence of '' @ resourceName c @ ''/'' @ to_str (lastChildId c))"
  by (simp add: exists_cb_def)

lemma retry_limit_is_lockFailed:
  assumes "maxRetryCount c = Some m" and "0 < m" and "collisionCount c = Some n" and "m < n"
  shows "exists_cb c None True r =
           lockFailed c (''Lock failed, retry count limit reached - '' @ digits n)"
proof -
  have eq: "c\<lparr>collisionCount := Some n\<rparr> = c" using assms(3) by (cases c) simp
  show ?thesis
    using assms(1,2,4)
    by (simp add: exists_cb_def count_of_def truthy_num_def gt_num_def Let_def assms(3) eq)
qed

lemma exists_cb_schedules:
  assumes "maxRetryCount c = Some N" and "0 < N" and "count_of (collisionCount c) \<le> N"
  shows "exists_cb c None True r =
           (c\<lparr>collisionCount := Some (count_of (collisionCount c))\<rparr>,
            [SetTimeout K_retry (nextDelay (count_of (collisionCount c)) (initialRetryWaitMs c) r)])"
  using assms by (simp add: exists_cb_def truthy_num_def gt_num_def Let_def)

lemma registers_call: "registers (call f as) = []"
  by (cases f) (simp_all add: call_def)

lemma lockFailed_effects_no_timer: "SetTimeout k d \<notin> set (snd (lockFailed c reason))"
  by (simp add: lockFailed_def call_def split: option.splits)

lemma run_append:
  "run (xs @ ys) w = (case run xs w of None \<Rightarrow> None | Some w1 \<Rightarrow> run ys w1)"
  by (induction xs arbitrary: w) (auto split: option.splits)

lemma retries_Nil: "retries [] = 0"
  by (simp add: retries_def)

lemma round_effects_session:
  "round_effects (c\<lparr>lastChildId := a, collisionCount := b\<rparr>) p r = round_effects c p r"
  by (rule ext) (simp add: round_effects_def)

lemma retries_round_effects: "retries (es @ round_effects c p r i) = Suc (retries es)"
  by (simp add: retries_def round_effects_def)

lemma poll_round_run:
  assumes "maxRetryCount (session w) = Some N" and "0 < N"
    and "seqZnode (session w) = Some s" and "s \<in> set children" and "s \<noteq> Min (set children)"
    and p: "p \<in> set children" "p < s" "\<forall>q\<in>set children. q < s \<longrightarrow> q \<le> p"
    and "pending w = [K_exists]" and "count_of (collisionCount (session w)) \<le> N"
  shows "run (poll_round children r) w =
           Some \<lparr>session = (session w)\<lparr>lastChildId := Some p,
                                      collisionCount := Some (Suc (count_of (collisionCount (session w))))\<rparr>,
                 pending = [K_exists],
                 trace = trace w @ round_effects (session w) p r (count_of (collisionCount (session w)))\<rparr>"
proof -
  let ?c = "session w"
  let ?n = "count_of (collisionCount ?c)"
  let ?c1 = "?c\<lparr>collisionCount := Some ?n\<rparr>"
  let ?w1 = "\<lparr>session = ?c1, pending = [K_retry],
              trace = trace w @ [SetTimeout K_retry (nextDelay ?n (initialRetryWaitMs ?c) r)]\<rparr>"
  let ?c2 = "?c1\<lparr>collisionCount := Some (Suc ?n)\<rparr>"
  let ?w2 = "\<lparr>session = ?c2, pending = [K_children],
              trace = trace ?w1 @ [ClientGetChildren (resourceName ?c)]\<rparr>"
  have s1: "step (ExistsCb None True r) w = Some ?w1"
    using assms(9) exists_cb_schedules [OF assms(1,2,10)]
    by (simp add: step_def enabled_def)
  have s2: "step RetryTimer ?w1 = Some ?w2"
    by (simp add: step_def enabled_def retry_cb_def getChildren_def)
  have sq: "seqZnode ?c2 = Some s" using assms(3) by simp
  have tr: "truthy_num (maxRetryCount ?c2)" using assms(1,2) by (simp add: truthy_num_def)
  have g: "getChildren_cb ?c2 None children =
             (?c2\<lparr>lastChildId := Some p\<rparr>, [ClientExists (resourceName ?c @ ''/'' @ p) False])"
    using getChildren_cb_waits_on [OF sq assms(4,5) p] tr by simp
  have s3: "step (GetChildrenCb None children) ?w2 =
              Some \<lparr>session = ?c2\<lparr>lastChildId := Some p\<rparr>, pending = [K_exists],
                    trace = trace ?w2 @ [ClientExists (resourceName ?c @ ''/'' @ p) False]\<rparr>"
    using g by (simp add: step_def enabled_def)
  show ?thesis
    using s1 s2 s3 by (simp add: poll_round_def round_effects_def)
qed

lemma poll_rounds_run:
  assumes "maxRetryCount (session w) = Some N" and "0 < N"
    and "seqZnode (session w) = Some s" and "s \<in> set children" and "s \<noteq> Min (set children)"
    and p: "p \<in> set children" "p < s" "\<forall>q\<in>set children. q < s \<longrightarrow> q \<le> p"
    and "pending w = [K_exists]" and "count_of (collisionCount (session w)) + k \<le> Suc N"
  shows "\<exists>w'. run (poll_rounds k children r) w = Some w'
           \<and> pending w' = [K_exists]
           \<and> maxRetryCount (session w') = Some N
           \<and> seqZnode (session w') = Some s
           \<and> resourceName (session w') = resourceName (session w)
           \<and> cb (session w') = cb (session w)
           \<and> initialRetryWaitMs (session w') = initialRetryWaitMs (session w)
           \<and> count_of (collisionCount (session w')) = count_of (collisionCount (session w)) + k
           \<and> (0 < k \<longrightarrow> collisionCount (session w') = Some (count_of (collisionCount (session w)) + k))
           \<and> trace w' = trace w @ concat (map (round_effects (session w) p r)
                [count_of (collisionCount (session w)) ..< count_of (collisionCount (session w)) + k])
           \<and> retries (trace w') = retries (trace w) + k"
  using assms(1,3,9,10)
proof (induction k arbitrary: w)
  case 0
  then show ?case by (simp add: poll_rounds_def)
next
  case (Suc k)
  let ?n = "count_of (collisionCount (session w))"
  let ?w1 = "\<lparr>session = (session w)\<lparr>lastChildId := Some p, collisionCount := Some (Suc ?n)\<rparr>,
              pending = [K_exists], trace = trace w @ round_effects (session w) p r ?n\<rparr>"
  have le: "?n \<le> N" using Suc.prems(4) by simp
  have w1: "run (poll_round children r) w = Some ?w1"
    using Suc.prems(1) assms(2) Suc.prems(2) assms(4,5) p Suc.prems(3) le by (rule poll_round_run)
  have c1: "count_of (collisionCount (session ?w1)) = Suc ?n" by (simp add: count_of_def)
  have b: "count_of (collisionCount (session ?w1)) + k \<le> Suc N" using c1 Suc.prems(4) by simp
  have m1: "maxRetryCount (session ?w1) = Some N" using Suc.prems(1) by simp
  have q1: "seqZnode (session ?w1) = Some s" using Suc.prems(2) by simp
  have p1: "pending ?w1 = [K_exists]" by simp
  obtain w' where w': "run (poll_rounds k children r) ?w1 = Some w'"
    "pending w' = [K_exists]" "maxRetryCount (session w') = Some N" "seqZnode (session w') = Some s"
    "resourceName (session w') = resourceName (session ?w1)"
    "cb (session w') = cb (session ?w1)"
    "initialRetryWaitMs (session w') = initialRetryWaitMs (session ?w1)"
    "count_of (collisionCount (session w')) = count_of (collisionCount (session ?w1)) + k"
    "0 < k \<longrightarrow> collisionCount (session w') = Some (count_of (collisionCount (session ?w1)) + k)"
    "trace w' = trace ?w1 @ concat (map (round_effects (session ?w1) p r)
       [count_of (collisionCount (session ?w1)) ..< count_of (collisionCount (session ?w1)) + k])"
    "retries (trace w') = retries (trace ?w1) + k"
    using Suc.IH [OF m1 q1 p1 b] by blast
  have r: "run (poll_rounds (Suc k) children r) w = Some w'"
    using w1 w'(1) by (simp add: poll_rounds_def run_append)
  have cc: "collisionCount (session w') = Some (?n + Suc k)"
  proof (cases "k = 0")
    case True
    then have "w' = ?w1" using w'(1) by (simp add: poll_rounds_def)
    then show ?thesis using True by simp
  next
    case False
    then show ?thesis using w'(9) c1 by simp
  qed
  have up: "[?n ..< ?n + Suc k] = ?n # [Suc ?n ..< Suc ?n + k]"
    by (simp add: upt_conv_Cons)
  have "trace w' = trace ?w1 @ concat (map (round_effects (session ?w1) p r) [Suc ?n ..< Suc ?n + k])"
    using w'(10) by (simp only: c1)
  then have t1: "trace w' = (trace w @ round_effects (session w) p r ?n)
      @ concat (map (round_effects (session w) p r) [Suc ?n ..< Suc ?n + k])"
    by (simp only: world.select_convs round_effects_session)
  have tr: "trace w' = trace w @ concat (map (round_effects (session w) p r) [?n ..< ?n + Suc k])"
    unfolding up t1 by (simp only: list.map concat.simps append_assoc)
  have rt: "retries (trace w') = retries (trace w) + Suc k"
    using w'(11) by (simp add: retries_round_effects)
  show ?case using r w'(2-7) c1 w'(8) cc tr rt by simp
qed

section \<open>Acquisition\<close>




text \<open>
  C4. When the existence check answers that the watched predecessor is gone, or when the
  watch fires, the session is left as it was and the only effect is a new listing of the
  children of the resource; nothing is acquired in that step. The answer to the listing
  then decides by rank: the session is acquired if and only if the list is not empty and
  its node is the smallest child, and when its node is in the list without being the
  smallest it waits again, on the greatest child below its own node.
\<close>

theorem predecessor_gone_relists:
  assumes "ev = ExistsCb None False r \<or> ev = WatchCb" and "enabled ev w"
    and "seqZnode (session w) = Some s" and "cb (session w) = Some f"
  shows "\<exists>w1 w2 es.
           step ev w = Some w1
         \<and> session w1 = session w
         \<and> trace w1 = trace w @ [ClientGetChildren (resourceName (session w))]
         \<and> K_children \<in> set (pending w1)
         \<and> step (GetChildrenCb None children) w1 = Some w2
         \<and> trace w2 = trace w1 @ es
         \<and> ((Invoke f [ANull, ACtx] \<in> set es
               \<and> acquiredResource (session w2) = Some (resourceName (session w) @ ''/'' @ s))
              = (children \<noteq> [] \<and> s = Min (set children)))
         \<and> (s \<in> set children \<and> s \<noteq> Min (set children) \<longrightarrow>
              (\<exists>p. p \<in> set children \<and> p < s \<and> (\<forall>q\<in>set children. q < s \<longrightarrow> q \<le> p)
                   \<and> session w2 = (session w)\<lparr>lastChildId := Some p\<rparr>
                   \<and> es = [ClientExists (resourceName (session w) @ ''/'' @ p)
                            (\<not> truthy_num (maxRetryCount (session w)))]))"
proof -
  let ?c = "session w"
  obtain w1 where w1: "step ev w = Some w1" "session w1 = ?c"
    "trace w1 = trace w @ [ClientGetChildren (resourceName ?c)]" "K_children \<in> set (pending w1)"
    using assms(1,2) by (auto simp: step_def exists_cb_def watchFunc_def getChildren_def)
  obtain c' es where g: "getChildren_cb ?c None children = (c', es)"
    by (cases "getChildren_cb ?c None children")
  let ?w2 = "\<lparr>session = c', pending = remove1 K_children (pending w1) @ concat (map registers es),
              trace = trace w1 @ es\<rparr>"
  have s2: "step (GetChildrenCb None children) w1 = Some ?w2"
    using w1(2,4) g by (simp add: step_def enabled_def)
  note o = getChildren_cb_outcome [OF assms(3,4) g]
  show ?thesis
    using w1 s2 o by (intro exI [of _ w1] exI [of _ ?w2] exI [of _ es]) simp
qed

text \<open>
  An instance of C4: the predecessor of a waiting session has gone while an earlier node
  is still listed, and the session waits on that node.
\<close>

theorem predecessor_gone_relists_witness:
  "enabled (ExistsCb None False (Fin (1 / 2))) ex_waiting
   \<and> seqZnode (session ex_waiting) = Some ''x0000000002''
   \<and> cb (session ex_waiting) = Some (Caller 0)
   \<and> ''x0000000002'' \<in> set [''x0000000002'', ''x0000000000'']
   \<and> ''x0000000002'' \<noteq> Min (set [''x0000000002'', ''x0000000000''])
   \<and> (\<exists>w1 w2 es.
           step (ExistsCb None False (Fin (1 / 2))) ex_waiting = Some w1
         \<and> session w1 = session ex_waiting
         \<and> trace w1 = trace ex_waiting @ [ClientGetChildren (resourceName (session ex_waiting))]
         \<and> K_children \<in> set (pending w1)
         \<and> step (GetChildrenCb None [''x0000000002'', ''x0000000000'']) w1 = Some w2
         \<and> trace w2 = trace w1 @ es
         \<and> \<not> (Invoke (Caller 0) [ANull, ACtx] \<in> set es
               \<and> acquiredResource (session w2)
                   = Some (resourceName (session ex_waiting) @ ''/'' @ ''x0000000002''))
         \<and> (\<exists>p. p \<in> set [''x0000000002'', ''x0000000000''] \<and> p < ''x0000000002''
                \<and> (\<forall>q\<in>set [''x0000000002'', ''x0000000000'']. q < ''x0000000002'' \<longrightarrow> q \<le> p)
                \<and> session w2 = (session ex_waiting)\<lparr>lastChildId := Some p\<rparr>
                \<and> es = [ClientExists (resourceName (session ex_waiting) @ ''/'' @ p)
                         (\<not> truthy_num (maxRetryCount (session ex_waiting)))]))"
proof -
  have h1: "ExistsCb None False (Fin (1 / 2)) = ExistsCb None False (Fin (1 / 2))
      \<or> ExistsCb None False (Fin (1 / 2)) = WatchCb" by simp
  have h2: "enabled (ExistsCb None False (Fin (1 / 2))) ex_waiting"
    by (simp add: enabled_def ex_defs)
  have h3: "seqZnode (session ex_waiting) = Some ''x0000000002''" by (simp add: ex_defs)
  have h4: "cb (session ex_waiting) = Some (Caller 0)" by (simp add: ex_defs)
  have m: "''x0000000002'' \<in> set [''x0000000002'', ''x0000000000'']
      \<and> ''x0000000002'' \<noteq> Min (set [''x0000000002'', ''x0000000000''])" by simp
  have n: "\<not> ([''x0000000002'', ''x0000000000''] \<noteq> []
      \<and> ''x0000000002'' = Min (set [''x0000000002'', ''x0000000000'']))" by simp
  show ?thesis
    using predecessor_gone_relists [OF h1 h2 h3 h4, of "[''x0000000002'', ''x0000000000'']"]
      h2 h3 h4 m n
    by blast
qed

section \<open>Failure\<close>




section \<open>Polling with backoff\<close>

text \<open>
  C6, as the claim states it, fails for \<open>maxRetryCount = 0\<close>: zero is falsy, so the session
  is in watch mode. The existence check that finds the predecessor schedules no recheck,
  sets no count and reports no failure, and no backoff timer is pending afterwards:
  there is neither the one recheck nor the failure that \<open>N + 1\<close> with \<open>N = 0\<close> predicts.
\<close>

theorem polling_zero_limit_counterexample:
  "run [CallLock, CreateCb None ''/locks/a/x0000000002'',
        GetChildrenCb None [''x0000000002'', ''x0000000001''],
        ExistsCb None True (Fin (1 / 2))]
       (ex_start\<lparr>session := ex_new\<lparr>maxRetryCount := Some 0\<rparr>\<rparr>) =
     Some \<lparr>session = ex_created\<lparr>maxRetryCount := Some 0, lastChildId := Some ''x0000000001''\<rparr>,
           pending = [K_watch],
           trace = [ClientCreate ''/locks/a/x'', ClientGetChildren ''/locks/a'',
                    ClientExists ''/locks/a/x0000000001'' True]\<rparr>
   \<and> step RetryTimer
         \<lparr>session = ex_created\<lparr>maxRetryCount := Some 0, lastChildId := Some ''x0000000001''\<rparr>,
          pending = [K_watch],
          trace = [ClientCreate ''/locks/a/x'', ClientGetChildren ''/locks/a'',
                   ClientExists ''/locks/a/x0000000001'' True]\<rparr> = None"
  by (simp add: step_def enabled_def handler_defs js_defs ex_defs Let_def)

text \<open>
  C6 (amended). In polling mode, that is for \<open>maxRetryCount = N\<close> with \<open>N \<ge> 1\<close>, a fresh
  count, a predecessor that stays and a listing in which the session's node is present
  but not the smallest: every round schedules exactly one retry with the delay computed
  from the current count, raises \<open>collisionCount\<close> by one, lists the children again and
  checks the same predecessor again, and nothing else happens. After \<open>k \<le> N + 1\<close> rounds the
  count is \<open>k\<close>. The existence check that follows schedules a further retry when \<open>k \<le> N\<close>;
  when \<open>k = N + 1\<close>, that is when \<open>collisionCount > maxRetryCount\<close> first holds, it takes the
  failure path instead: the session's node is removed and then the caller is told
  'unable to acquire lock' (the retry-limit message itself is only logged). So exactly
  \<open>N + 1\<close> rechecks are made before the failure.
\<close>

theorem polling_retry_limit:
  assumes "maxRetryCount (session w) = Some N" and "0 < N"
    and "collisionCount (session w) = None"
    and "seqZnode (session w) = Some s" and "s \<noteq> []"
    and "s \<in> set children" and "s \<noteq> Min (set children)"
    and "pending w = [K_exists]" and "k \<le> N + 1"
  shows "\<exists>p w'.
             p \<in> set children \<and> p < s \<and> (\<forall>q\<in>set children. q < s \<longrightarrow> q \<le> p)
           \<and> run (poll_rounds k children r) w = Some w'
           \<and> pending w' = [K_exists]
           \<and> count_of (collisionCount (session w')) = k
           \<and> trace w' = trace w @ concat (map (round_effects (session w) p r) [0 ..< k])
           \<and> retries (trace w') = retries (trace w) + k
           \<and> (if k \<le> N
               then step (ExistsCb None True r) w' =
                      Some \<lparr>session = (session w')\<lparr>collisionCount := Some k\<rparr>,
                            pending = [K_retry],
                            trace = trace w' @
                              [SetTimeout K_retry (nextDelay k (initialRetryWaitMs (session w)) r)]\<rparr>
               else run [ExistsCb None True r, FailRemoveCb err] w' =
                      Some \<lparr>session = session w', pending = [],
                            trace = trace w' @
                              [ClientRemove (resourceName (session w) @ ''/'' @ s) K_failRemove,
                               call (cb (session w)) [AStr ''unable to acquire lock'']]\<rparr>)"
proof -
  obtain p where p: "p \<in> set children" "p < s" "\<forall>q\<in>set children. q < s \<longrightarrow> q \<le> p"
    using predecessor_exists [OF assms(6,7)] by blast
  have z: "count_of (collisionCount (session w)) = 0" using assms(3) by (simp add: count_of_def)
  have b: "count_of (collisionCount (session w)) + k \<le> Suc N" using z assms(9) by simp
  obtain w' where w': "run (poll_rounds k children r) w = Some w'"
    "pending w' = [K_exists]" "maxRetryCount (session w') = Some N" "seqZnode (session w') = Some s"
    "resourceName (session w') = resourceName (session w)"
    "cb (session w') = cb (session w)"
    "initialRetryWaitMs (session w') = initialRetryWaitMs (session w)"
    "count_of (collisionCount (session w')) = count_of (collisionCount (session w)) + k"
    "0 < k \<longrightarrow> collisionCount (session w') = Some (count_of (collisionCount (session w)) + k)"
    "trace w' = trace w @ concat (map (round_effects (session w) p r)
       [count_of (collisionCount (session w)) ..< count_of (collisionCount (session w)) + k])"
    "retries (trace w') = retries (trace w) + k"
    using poll_rounds_run [OF assms(1,2,4,6,7) p assms(8) b] by blast
  have cnt: "count_of (collisionCount (session w')) = k" using w'(8) z by simp
  have tr: "trace w' = trace w @ concat (map (round_effects (session w) p r) [0 ..< k])"
    using w'(10) z by simp
  have fin: "if k \<le> N
               then step (ExistsCb None True r) w' =
                      Some \<lparr>session = (session w')\<lparr>collisionCount := Some k\<rparr>,
                            pending = [K_retry],
                            trace = trace w' @
                              [SetTimeout K_retry (nextDelay k (initialRetryWaitMs (session w)) r)]\<rparr>
               else run [ExistsCb None True r, FailRemoveCb err] w' =
                      Some \<lparr>session = session w', pending = [],
                            trace = trace w' @
                              [ClientRemove (resourceName (session w) @ ''/'' @ s) K_failRemove,
                               call (cb (session w)) [AStr ''unable to acquire lock'']]\<rparr>"
  proof (cases "k \<le> N")
    case True
    have "exists_cb (session w') None True r =
            ((session w')\<lparr>collisionCount := Some k\<rparr>,
             [SetTimeout K_retry (nextDelay k (initialRetryWaitMs (session w)) r)])"
      using exists_cb_schedules [of "session w'" N r] w'(3,7) assms(2) cnt True by simp
    then show ?thesis using True w'(2) by (simp add: step_def enabled_def)
  next
    case False
    then have "0 < k" by simp
    then have cc: "collisionCount (session w') = Some k" using w'(9) z by simp
    have lt: "N < k" using False by simp
    have "exists_cb (session w') None True r =
            lockFailed (session w') (''Lock failed, retry count limit reached - '' @ digits k)"
      using w'(3) assms(2) cc lt by (rule retry_limit_is_lockFailed)
    then have e: "exists_cb (session w') None True r =
            (session w', [ClientRemove (resourceName (session w) @ ''/'' @ s) K_failRemove])"
      using w'(4,5) assms(5) by (simp add: lockFailed_def truthy_str_def to_str_def)
    show ?thesis
      using False e w'(2,6)
      by (simp add: step_def enabled_def lockFailed_remove_cb_def registers_call)
  qed
  show ?thesis using p w'(1,2) cnt tr w'(11) fin by blast
qed

text \<open>
  An instance of C6 (amended): one retry configured, two rounds, then the failure.
\<close>

theorem polling_retry_limit_witness:
  "maxRetryCount (session ex_waiting) = Some 1 \<and> (0::nat) < 1
   \<and> collisionCount (session ex_waiting) = None
   \<and> seqZnode (session ex_waiting) = Some ''x0000000002'' \<and> ''x0000000002'' \<noteq> []
   \<and> ''x0000000002'' \<in> set [''x0000000002'', ''x0000000001'']
   \<and> ''x0000000002'' \<noteq> Min (set [''x0000000002'', ''x0000000001''])
   \<and> pending ex_waiting = [K_exists] \<and> (2::nat) \<le> 1 + 1
   \<and> (\<exists>p w'.
           p \<in> set [''x0000000002'', ''x0000000001''] \<and> p < ''x0000000002''
         \<and> run (poll_rounds 2 [''x0000000002'', ''x0000000001''] (Fin (1 / 2))) ex_waiting = Some w'
         \<and> pending w' = [K_exists]
         \<and> count_of (collisionCount (session w')) = 2
         \<and> trace w' = trace ex_waiting @
              concat (map (round_effects (session ex_waiting) p (Fin (1 / 2))) [0 ..< 2])
         \<and> run [ExistsCb None True (Fin (1 / 2)), FailRemoveCb (Some CONNECTION_LOSS)] w' =
              Some \<lparr>session = session w', pending = [],
                    trace = trace w' @
                      [ClientRemove (resourceName (session ex_waiting) @ ''/'' @ ''x0000000002'')
                         K_failRemove,
                       call (cb (session ex_waiting)) [AStr ''unable to acquire lock'']]\<rparr>)"
proof -
  have h1: "maxRetryCount (session ex_waiting) = Some 1" by (simp add: ex_defs)
  have h2: "(0::nat) < 1" by simp
  have h3: "collisionCount (session ex_waiting) = None" by (simp add: ex_defs)
  have h4: "seqZnode (session ex_waiting) = Some ''x0000000002''" by (simp add: ex_defs)
  have h5: "''x0000000002'' \<noteq> []" by simp
  have h6: "''x0000000002'' \<in> set [''x0000000002'', ''x0000000001'']" by simp
  have h7: "''x0000000002'' \<noteq> Min (set [''x0000000002'', ''x0000000001''])" by simp
  have h8: "pending ex_waiting = [K_exists]" by (simp add: ex_defs)
  have h9: "(2::nat) \<le> 1 + 1" by simp
  have n: "\<not> (2::nat) \<le> 1" by simp
  from polling_retry_limit [OF h1 h2 h3 h4 h5 h6 h7 h8 h9, of "Fin (1 / 2)" "Some CONNECTION_LOSS"]
  obtain p w' where
    "p \<in> set [''x0000000002'', ''x0000000001'']" "p < ''x0000000002''"
    "run (poll_rounds 2 [''x0000000002'', ''x0000000001''] (Fin (1 / 2))) ex_waiting = Some w'"
    "pending w' = [K_exists]"
    "count_of (collisionCount (session w')) = 2"
    "trace w' = trace ex_waiting @
       concat (map (round_effects (session ex_waiting) p (Fin (1 / 2))) [0 ..< 2])"
    "run [ExistsCb None True (Fin (1 / 2)), FailRemoveCb (Some CONNECTION_LOSS)] w' =
       Some \<lparr>session = session w', pending = [],
             trace = trace w' @
               [ClientRemove (resourceName (session ex_waiting) @ ''/'' @ ''x0000000002'')
                  K_failRemove,
                call (cb (session ex_waiting)) [AStr ''unable to acquire lock'']]\<rparr>"
    unfolding if_not_P [OF n] by blast
  then show ?thesis using h1 h2 h3 h4 h5 h6 h7 h8 h9 by blast
qed

text \<open>
  C7, as the claim states it, fails when the products overflow. With a retry base of
  \<open>2 ^ 1023\<close> milliseconds, a positive double, and one collision, both \<open>2 * base\<close> and
  \<open>base * 10\<close> are \<^verbatim>\<open>Infinity\<close>, and so is the delay passed to \<^verbatim>\<open>setTimeout\<close>: it lies in no
  interval bounded by \<open>min (2 * base) (10 * base)\<close>.
\<close>

theorem backoff_overflow_counterexample:
  "snd (exists_cb ((session ex_waiting)\<lparr>initialRetryWaitMs := Fin (2 ^ 1023),
                                         collisionCount := Some 1\<rparr>)
          None True (Fin (1 / 2))) = [SetTimeout K_retry PosInf]
   \<and> dround (2 ^ 1023) = Fin (2 ^ 1023) \<and> (0::rat) < 2 ^ 1023"
proof -
  let ?c = "(session ex_waiting)\<lparr>initialRetryWaitMs := Fin (2 ^ 1023), collisionCount := Some 1\<rparr>"
  have m: "maxRetryCount ?c = Some 1" by (simp add: ex_defs)
  have z: "(0::nat) < 1" by simp
  have n: "count_of (collisionCount ?c) \<le> 1" by (simp add: count_of_def)
  have c1: "count_of (collisionCount ?c) = 1" by (simp add: count_of_def)
  have i: "initialRetryWaitMs ?c = Fin (2 ^ 1023)" by simp
  have "exists_cb ?c None True (Fin (1 / 2)) =
          (?c\<lparr>collisionCount := Some (count_of (collisionCount ?c))\<rparr>,
           [SetTimeout K_retry
              (nextDelay (count_of (collisionCount ?c)) (initialRetryWaitMs ?c) (Fin (1 / 2)))])"
    using m z n by (rule exists_cb_schedules)
  then have "snd (exists_cb ?c None True (Fin (1 / 2)))
          = [SetTimeout K_retry (nextDelay 1 (Fin (2 ^ 1023)) (Fin (1 / 2)))]"
    by (simp only: snd_conv c1 i)
  then have a: "snd (exists_cb ?c None True (Fin (1 / 2))) = [SetTimeout K_retry PosInf]"
    by (simp only: overflow_example)
  have b: "dround (2 ^ 1023) = Fin (2 ^ 1023)"
    using round_mag_pow2 [of 1023] by (simp add: dround_nonneg)
  show ?thesis using a b by simp
qed

text \<open>
  C7 (amended). For a random number that is a double in \<open>[0, 1)\<close> and a positive
  \<open>initialRetryWaitMs\<close> whose products do not both overflow, so that the \<open>maxDelay\<close> of line
  159 is finite, every delay that the existence callback passes to \<^verbatim>\<open>setTimeout\<close> is an
  integer between 0 and \<open>min (2 ^ collisionCount * initialRetryWaitMs)
  (10 * initialRetryWaitMs)\<close>, the bound taken in exact arithmetic.
\<close>

theorem backoff_delay_bounded:
  assumes "initialRetryWaitMs c = Fin w" and "0 < w"
    and "dround rv = Fin rv" and "0 \<le> rv" and "rv < 1"
    and "dmin (dmul (dpow2 (count_of (collisionCount c))) (Fin w)) (dmul (Fin w) (Fin 10)) = Fin m"
    and "SetTimeout k d \<in> set (snd (exists_cb c err stat (Fin rv)))"
  shows "\<exists>i. d = Fin (of_int i) \<and> 0 \<le> i
           \<and> of_int i \<le> min (2 ^ count_of (collisionCount c) * w) (10 * w)"
proof -
  have "d = nextDelay (count_of (collisionCount c)) (initialRetryWaitMs c) (Fin rv)"
    using assms(7) lockFailed_effects_no_timer
    by (auto simp: exists_cb_def getChildren_def Let_def split: option.splits if_splits)
  then show ?thesis using nextDelay_bound [OF assms(2-6)] assms(1) by simp
qed

text \<open>
  An instance of C7 (amended): first collision, base 100, random number 3/4, delay 75.
\<close>

theorem backoff_delay_bounded_witness:
  "initialRetryWaitMs (session ex_waiting) = Fin 100 \<and> (0::rat) < 100
   \<and> dround (3 / 4) = Fin (3 / 4) \<and> (0::rat) \<le> 3 / 4 \<and> (3 / 4 :: rat) < 1
   \<and> dmin (dmul (dpow2 (count_of (collisionCount (session ex_waiting)))) (Fin 100))
          (dmul (Fin 100) (Fin 10)) = Fin 100
   \<and> SetTimeout K_retry (Fin 75) \<in> set (snd (exists_cb (session ex_waiting) None True (Fin (3 / 4))))
   \<and> (\<exists>i. Fin 75 = Fin (of_int i) \<and> 0 \<le> i
          \<and> of_int i \<le> min (2 ^ count_of (collisionCount (session ex_waiting)) * (100::rat)) (10 * 100))"
proof -
  have a: "dround 100 = Fin 100" using dround_int [of 100] by simp
  have b: "dround 1000 = Fin 1000" using dround_int [of 1000] by simp
  have c0: "count_of (collisionCount (session ex_waiting)) = 0" by (simp add: ex_defs count_of_def)
  have h1: "initialRetryWaitMs (session ex_waiting) = Fin 100" by (simp add: ex_defs)
  have h2: "(0::rat) < 100" by simp
  have h3: "dround (3 / 4) = Fin (3 / 4)" by (rule dround_three_quarters)
  have h4: "(0::rat) \<le> 3 / 4" by simp
  have h5: "(3 / 4 :: rat) < 1" by simp
  have h6: "dmin (dmul (dpow2 (count_of (collisionCount (session ex_waiting)))) (Fin 100))
          (dmul (Fin 100) (Fin 10)) = Fin 100"
    unfolding c0 by (simp add: dpow2_eq dmul_def dmin_def a b)
  have m: "maxRetryCount (session ex_waiting) = Some 1" by (simp add: ex_defs)
  have "exists_cb (session ex_waiting) None True (Fin (3 / 4)) =
          ((session ex_waiting)\<lparr>collisionCount := Some 0\<rparr>,
           [SetTimeout K_retry (nextDelay 0 (Fin 100) (Fin (3 / 4)))])"
    using exists_cb_schedules [OF m, of "Fin (3 / 4)"] c0 h1 by simp
  then have h7: "SetTimeout K_retry (Fin 75)
      \<in> set (snd (exists_cb (session ex_waiting) None True (Fin (3 / 4))))"
    by (simp add: nextDelay_example)
  show ?thesis
    using backoff_delay_bounded [OF h1 h2 h3 h4 h5 h6 h7] h1 h2 h3 h4 h5 h6 h7 by blast
qed

text \<open>
  C10. With \<open>maxRetryCount = 0\<close> every handler does what it does when \<open>maxRetryCount\<close> is
  absent, to the session and to the environment. In particular the existence check passes
  a watch function, and a predecessor that still exists leads to no timer, no count and no
  failure: the session waits for the watch.
\<close>

theorem zero_retry_count_is_watch_mode:
  "handler ev (c\<lparr>maxRetryCount := Some 0\<rparr>) =
     (let (c', es) = handler ev (c\<lparr>maxRetryCount := None\<rparr>) in (c'\<lparr>maxRetryCount := Some 0\<rparr>, es))
   \<and> snd (exists (c\<lparr>maxRetryCount := Some 0\<rparr>)) =
       [ClientExists (resourceName c @ ''/'' @ to_str (lastChildId c)) True]
   \<and> exists_cb (c\<lparr>maxRetryCount := Some 0\<rparr>) None True r = (c\<lparr>maxRetryCount := Some 0\<rparr>, [])"
  by (cases ev) (auto simp: handler_defs js_defs Let_def split: option.splits)

section \<open>Release\<close>

text \<open>
  C3. Unlocking a session that holds nothing contacts no store: it only schedules the
  callback with \<^verbatim>\<open>setImmediate\<close>, which then runs without an error argument. Unlocking a
  held session twice, the first removal succeeding, removes the node once and invokes the
  callback without an error argument both times.
\<close>

theorem unlock_idempotent:
  "(\<not> truthy_str (acquiredResource (session w)) \<longrightarrow>
      (\<exists>w'. run [CallUnlock, Immediate (case cb (session w) of None \<Rightarrow> Noop | Some g \<Rightarrow> g)] w = Some w'
         \<and> session w' = (session w)\<lparr>cb := Some (case cb (session w) of None \<Rightarrow> Noop | Some g \<Rightarrow> g)\<rparr>
         \<and> trace w' = trace w @
              [SetImmediate (case cb (session w) of None \<Rightarrow> Noop | Some g \<Rightarrow> g),
               Invoke (case cb (session w) of None \<Rightarrow> Noop | Some g \<Rightarrow> g) []]))
   \<and> (truthy_str (acquiredResource (session w)) \<longrightarrow>
      (\<exists>w'. run [CallUnlock, UnlockRemoveCb None, CallUnlock,
                  Immediate (case cb (session w) of None \<Rightarrow> Noop | Some g \<Rightarrow> g)] w = Some w'
         \<and> session w' = (session w)\<lparr>cb := Some (case cb (session w) of None \<Rightarrow> Noop | Some g \<Rightarrow> g),
                                   acquiredResource := None\<rparr>
         \<and> trace w' = trace w @
              [ClientRemove (to_str (acquiredResource (session w))) K_unlockRemove,
               Invoke (case cb (session w) of None \<Rightarrow> Noop | Some g \<Rightarrow> g) [],
               SetImmediate (case cb (session w) of None \<Rightarrow> Noop | Some g \<Rightarrow> g),
               Invoke (case cb (session w) of None \<Rightarrow> Noop | Some g \<Rightarrow> g) []]))"
  by (simp add: step_def enabled_def unlock_def unlock_remove_cb_def js_defs Let_def)

text \<open>
  Instances of C3: a session that never acquired, and a held session unlocked twice.
\<close>

theorem unlock_idempotent_witness:
  "(\<exists>w'. run [CallUnlock, Immediate (Caller 0)] (ex_listing\<lparr>pending := []\<rparr>) = Some w'
         \<and> session w' = ex_created
         \<and> trace w' = [SetImmediate (Caller 0), Invoke (Caller 0) []])
   \<and> (\<exists>w'. run [CallUnlock, UnlockRemoveCb None, CallUnlock, Immediate Noop] ex_holding = Some w'
         \<and> session w' = ex_held\<lparr>cb := Some Noop, acquiredResource := None\<rparr>
         \<and> trace w' =
              [ClientRemove ''/locks/a/x0000000001'' K_unlockRemove, Invoke Noop [],
               SetImmediate Noop, Invoke Noop []])"
  using unlock_idempotent [of "ex_listing\<lparr>pending := []\<rparr>"] unlock_idempotent [of ex_holding]
  by (simp add: ex_defs js_defs)

text \<open>
  C8. When the store's remove fails during unlock, the callback receives the message
  'unable to unlock resource' together with the path that could not be released, and the
  session's \<open>acquiredResource\<close> is unchanged: the session still appears held.
\<close>

theorem unlock_remove_failure_keeps_held:
  assumes "acquiredResource (session w) = Some p" and "p \<noteq> []"
  shows "\<exists>w'. run [CallUnlock, UnlockRemoveCb (Some e)] w = Some w'
           \<and> acquiredResource (session w') = Some p
           \<and> trace w' = trace w @
                [ClientRemove p K_unlockRemove,
                 Invoke (case cb (session w) of None \<Rightarrow> Noop | Some g \<Rightarrow> g)
                   [AStr ''unable to unlock resource'', AStr p]]"
  using assms
  by (simp add: step_def enabled_def unlock_def unlock_remove_cb_def js_defs Let_def)

text \<open>
  An instance of C8: the connection is lost while a held lock is released.
\<close>

theorem unlock_remove_failure_keeps_held_witness:
  "\<exists>w'. run [CallUnlock, UnlockRemoveCb (Some CONNECTION_LOSS)] ex_holding = Some w'
           \<and> acquiredResource (session w') = Some ''/locks/a/x0000000001''
           \<and> trace w' =
                [ClientRemove ''/locks/a/x0000000001'' K_unlockRemove,
                 Invoke Noop [AStr ''unable to unlock resource'', AStr ''/locks/a/x0000000001'']]"
  using unlock_remove_failure_keeps_held [of ex_holding "''/locks/a/x0000000001''" CONNECTION_LOSS]
  by (simp add: ex_defs)

text \<open>
  C9, as the claim states it, fails: when the remove answers that the node does not
  exist, unlock reports 'unable to unlock resource' and the session still appears held.
\<close>

theorem unlock_not_found_counterexample:
  "run [CallUnlock, UnlockRemoveCb (Some NO_NODE)] ex_holding =
     Some \<lparr>session = ex_held\<lparr>cb := Some Noop\<rparr>, pending = [K_ttl],
           trace = [ClientRemove ''/locks/a/x0000000001'' K_unlockRemove,
                    Invoke Noop [AStr ''unable to unlock resource'', AStr ''/locks/a/x0000000001'']]\<rparr>
   \<and> acquiredResource (ex_held\<lparr>cb := Some Noop\<rparr>) = Some ''/locks/a/x0000000001''"
  by (simp add: step_def enabled_def handler_defs js_defs ex_defs Let_def)

text \<open>
  C9 (amended). Unlock does not look at the kind of error: "not found" is handled like
  every other error of the remove, the callback receives 'unable to unlock resource' with
  the path, and \<open>acquiredResource\<close> is not cleared.
\<close>

theorem unlock_not_found_like_any_error:
  "unlock_remove_cb c (Some NO_NODE) = unlock_remove_cb c (Some e)
   \<and> acquiredResource (fst (unlock_remove_cb c (Some NO_NODE))) = acquiredResource c
   \<and> snd (unlock_remove_cb c (Some NO_NODE)) =
       [call (cb c) [AStr ''unable to unlock resource'', str_arg (acquiredResource c)]]"
  by (simp add: unlock_remove_cb_def)

section \<open>Expiry of the TTL\<close>

text \<open>
  C5, as the claim states it, fails: after a clean release the TTL timer is still
  pending, and when it fires the 'ttlExpired' notification is emitted.
\<close>

theorem ttl_after_release_counterexample:
  "run [CallLock, CreateCb None ''/locks/a/x0000000001'', GetChildrenCb None [''x0000000001''],
        CallUnlock, UnlockRemoveCb None, TtlTimer] ex_start =
     Some \<lparr>session = ex_held\<lparr>cb := Some Noop, acquiredResource := None\<rparr>,
           pending = [K_immediate Noop],
           trace = [ClientCreate ''/locks/a/x'', ClientGetChildren ''/locks/a'',
                    SetTimeout K_ttl (Fin 1000), Invoke (Caller 0) [ANull, ACtx],
                    ClientRemove ''/locks/a/x0000000001'' K_unlockRemove, Invoke Noop [],
                    Emit ''ttlExpired'' ''x'', SetImmediate Noop]\<rparr>"
  by (simp add: step_def enabled_def handler_defs js_defs ex_defs Let_def)

text \<open>
  C5 (amended). A clean release does not cancel the TTL timer. When the timer fires
  afterwards it emits 'ttlExpired' with the resource id and calls unlock, which finds
  nothing held: no second remove is sent to the store, only the callback is scheduled.
\<close>

theorem ttl_after_release_no_remove:
  assumes "truthy_str (acquiredResource (session w))" and "K_ttl \<in> set (pending w)"
  shows "\<exists>w'. run [CallUnlock, UnlockRemoveCb None, TtlTimer] w = Some w'
           \<and> acquiredResource (session w') = None
           \<and> trace w' = trace w @
                [ClientRemove (to_str (acquiredResource (session w))) K_unlockRemove,
                 Invoke (case cb (session w) of None \<Rightarrow> Noop | Some g \<Rightarrow> g) [],
                 Emit ''ttlExpired'' (resourceId (session w)),
                 SetImmediate (case cb (session w) of None \<Rightarrow> Noop | Some g \<Rightarrow> g)]"
  using assms
  by (simp add: step_def enabled_def unlock_def unlock_remove_cb_def ttl_cb_def js_defs Let_def)

text \<open>
  An instance of C5 (amended): the held example session, released and then expired.
\<close>

theorem ttl_after_release_no_remove_witness:
  "\<exists>w'. run [CallUnlock, UnlockRemoveCb None, TtlTimer] ex_holding = Some w'
           \<and> acquiredResource (session w') = None
           \<and> trace w' =
                [ClientRemove ''/locks/a/x0000000001'' K_unlockRemove, Invoke Noop [],
                 Emit ''ttlExpired'' ''x'', SetImmediate Noop]"
  using ttl_after_release_no_remove [of ex_holding]
  by (simp add: ex_defs js_defs)

end
